theory Spec2Isabelle
  imports Complex_Main
begin

section \<open>Python values and exceptions\<close>

text \<open>
  The notebook \<^verbatim>\<open>by_gene.ipynb\<close> talks to two HTTP services and works on the JSON
  they send back. Exceptions are values: every function that can raise returns
  \<open>error + 'a\<close>, with \<open>Inl\<close> the exception class that reaches the caller.

  \<^verbatim>\<open>raise("some text")\<close>, as the notebook writes it in four places, does not
  raise the text: in Python 3 only instances of \<open>BaseException\<close> can be raised, so
  the statement itself raises \<open>TypeError\<close> (``exceptions must derive from
  BaseException'') and the text is dropped. The constant \<open>raise_str\<close> is that statement.
\<close>

datatype error =
    TypeError | ValueError | KeyError | IndexError | AttributeError | OverflowError
  | JSONDecodeError | RequestException | RateLimitException | RecursionError

definition raise_str :: error where
  "raise_str = TypeError"

text \<open>
  What \<^verbatim>\<open>res.json()\<close> returns. A JSON object is the list of its members in the order
  of the text; Python's parser turns it into a dict in which a repeated name keeps its
  first position and its last value, and the operations below read the list that way.
  A number with a fraction or an exponent is a float, held as the rational value of the
  double that the parser returns; a rational beyond \<open>max_double\<close>, the largest finite
  double, stands for the infinity that the parser returns for a number such as
  \<^verbatim>\<open>1e400\<close>. \<open>JNaN\<close> is the float that the parser returns for the literal
  \<^verbatim>\<open>NaN\<close>, which it accepts. A string is the list of its characters, each a code
  point below 256.
\<close>

datatype json =
    JNull | JBool bool | JInt int | JFloat rat | JNaN | JStr string
  | JArr "json list" | JObj "(string \<times> json) list"

definition max_double :: rat where
  "max_double = (2 ^ 53 - 1) * 2 ^ 971"

text \<open>\<^verbatim>\<open>sub in s\<close> on two strings: \<open>sub\<close> occurs in \<open>s\<close> as a contiguous block.\<close>

fun str_contains :: "string \<Rightarrow> string \<Rightarrow> bool" where
  "str_contains sub [] = (sub = [])"
| "str_contains sub (c # cs) = (take (length sub) (c # cs) = sub \<or> str_contains sub cs)"

text \<open>\<^verbatim>\<open>k in x\<close> for a string \<open>k\<close>: key of a dict, element of a list, substring of a string.\<close>

fun py_in :: "string \<Rightarrow> json \<Rightarrow> error + bool" where
  "py_in k (JObj kvs) = Inr (k \<in> set (map fst kvs))"
| "py_in k (JArr xs) = Inr (JStr k \<in> set xs)"
| "py_in k (JStr s) = Inr (str_contains k s)"
| "py_in k _ = Inl TypeError"

text \<open>\<^verbatim>\<open>x[k]\<close> for a string \<open>k\<close>, and \<^verbatim>\<open>x[0]\<close>.\<close>

fun py_getitem :: "json \<Rightarrow> string \<Rightarrow> error + json" where
  "py_getitem (JObj kvs) k =
     (case map_of (rev kvs) k of None \<Rightarrow> Inl KeyError | Some v \<Rightarrow> Inr v)"
| "py_getitem _ k = Inl TypeError"

fun py_getitem0 :: "json \<Rightarrow> error + json" where
  "py_getitem0 (JArr []) = Inl IndexError"
| "py_getitem0 (JArr (x # xs)) = Inr x"
| "py_getitem0 (JStr []) = Inl IndexError"
| "py_getitem0 (JStr (c # cs)) = Inr (JStr [c])"
| "py_getitem0 (JObj kvs) = Inl KeyError"
| "py_getitem0 _ = Inl TypeError"

subsection \<open>Integers and their decimal text\<close>

text \<open>
  \<^verbatim>\<open>int(s)\<close> on a string: surrounding whitespace is dropped (the code points 9 to 13,
  32, 133 and 160; the separators 28 to 31, which \<^verbatim>\<open>str.strip\<close> drops, are not), then
  an optional sign, then decimal digits in which single underscores may stand between
  two digits. Anything else is \<open>ValueError\<close>.
\<close>

definition is_space :: "char \<Rightarrow> bool" where
  "is_space c = (of_char c \<in> set [9, 10, 11, 12, 13, 32, 133, 160 :: nat])"

definition strip :: "string \<Rightarrow> string" where
  "strip s = rev (dropWhile is_space (rev (dropWhile is_space s)))"

definition digit_val :: "char \<Rightarrow> nat option" where
  "digit_val c = (let n = (of_char c :: nat) in if 48 \<le> n \<and> n \<le> 57 then Some (n - 48) else None)"

fun parse_digits :: "nat \<Rightarrow> string \<Rightarrow> nat option" where
  "parse_digits acc [] = Some acc"
| "parse_digits acc [c] =
     (case digit_val c of None \<Rightarrow> None | Some v \<Rightarrow> Some (10 * acc + v))"
| "parse_digits acc (c # d # ds) =
     (if c = CHR ''_''
      then (case digit_val d of None \<Rightarrow> None | Some v \<Rightarrow> parse_digits (10 * acc + v) ds)
      else (case digit_val c of None \<Rightarrow> None | Some v \<Rightarrow> parse_digits (10 * acc + v) (d # ds)))"

fun parse_nat :: "string \<Rightarrow> nat option" where
  "parse_nat [] = None"
| "parse_nat (c # cs) = (case digit_val c of None \<Rightarrow> None | Some v \<Rightarrow> parse_digits v cs)"

definition int_of_str :: "string \<Rightarrow> error + int" where
  "int_of_str s =
     (case strip s of
        [] \<Rightarrow> Inl ValueError
      | c # cs \<Rightarrow>
          (if c = CHR ''-'' then (case parse_nat cs of None \<Rightarrow> Inl ValueError | Some n \<Rightarrow> Inr (- int n))
           else if c = CHR ''+'' then (case parse_nat cs of None \<Rightarrow> Inl ValueError | Some n \<Rightarrow> Inr (int n))
           else (case parse_nat (c # cs) of None \<Rightarrow> Inl ValueError | Some n \<Rightarrow> Inr (int n))))"

text \<open>
  \<^verbatim>\<open>int(x)\<close> on a JSON value; a float is truncated towards zero, an infinite one is
  \<open>OverflowError\<close> and \<^verbatim>\<open>NaN\<close> is \<open>ValueError\<close>.
\<close>

fun py_int :: "json \<Rightarrow> error + int" where
  "py_int (JStr s) = int_of_str s"
| "py_int (JInt n) = Inr n"
| "py_int (JBool b) = Inr (if b then 1 else 0)"
| "py_int (JFloat q) =
     (if q > max_double \<or> q < - max_double then Inl OverflowError
      else Inr (if q < 0 then - \<lfloor>- q\<rfloor> else \<lfloor>q\<rfloor>))"
| "py_int JNaN = Inl ValueError"
| "py_int _ = Inl TypeError"

text \<open>An integer inside an f-string: its decimal digits, with \<open>-\<close> in front when negative.\<close>

definition digit_char :: "nat \<Rightarrow> char" where
  "digit_char n = char_of (48 + n)"

fun digits_of :: "nat \<Rightarrow> string" where
  "digits_of n = (if n < 10 then [digit_char n] else digits_of (n div 10) @ [digit_char (n mod 10)])"

declare digits_of.simps [simp del]

definition str_int :: "int \<Rightarrow> string" where
  "str_int i = (if i < 0 then CHR ''-'' # digits_of (nat (- i)) else digits_of (nat i))"

subsection \<open>Strings and dicts\<close>

text \<open>\<^verbatim>\<open>s.split('@')\<close>: the pieces of \<open>s\<close> between the occurrences of the separator.\<close>

fun split_at :: "char \<Rightarrow> string \<Rightarrow> string list" where
  "split_at sep [] = [[]]"
| "split_at sep (c # cs) =
     (if c = sep then [] # split_at sep cs
      else (case split_at sep cs of [] \<Rightarrow> [[c]] | p # ps \<Rightarrow> (c # p) # ps))"

text \<open>
  The accumulator \<^verbatim>\<open>coll\<close> is a Python dict: its entries in insertion order, no key
  twice. \<^verbatim>\<open>coll[k] = v\<close> overwrites the value of a key that is there and appends a
  new key at the end.
\<close>

type_synonym pydict = "(json \<times> json) list"

fun dict_setitem :: "json \<Rightarrow> json \<Rightarrow> pydict \<Rightarrow> pydict" where
  "dict_setitem k v [] = [(k, v)]"
| "dict_setitem k v (p # ps) = (if fst p = k then (k, v) # ps else p # dict_setitem k v ps)"

section \<open>The next interval start\<close>

text \<open>
  \<^verbatim>\<open>
  def get_next_interval_start(result: dict) -> int:
      stops = []
      for k in result.keys():
          length, start = k.split('@')
          stops.append(int(length) + int(start))
      return max(stops) + 1
  \<close>
  A key that is not a string has no \<open>split\<close> (\<open>AttributeError\<close>); unpacking anything
  but two pieces, a piece that is not an integer, and \<open>max\<close> of the empty list are
  \<open>ValueError\<close>.
\<close>

fun key_stop :: "json \<Rightarrow> error + int" where
  "key_stop (JStr k) =
     (case split_at CHR ''@'' k of
        [length_, start] \<Rightarrow>
          (case int_of_str length_ of
             Inl e \<Rightarrow> Inl e
           | Inr l \<Rightarrow> (case int_of_str start of Inl e \<Rightarrow> Inl e | Inr s \<Rightarrow> Inr (l + s)))
      | _ \<Rightarrow> Inl ValueError)"
| "key_stop _ = Inl AttributeError"

fun collect_stops :: "int list \<Rightarrow> json list \<Rightarrow> error + int list" where
  "collect_stops stops [] = Inr stops"
| "collect_stops stops (k # ks) =
     (case key_stop k of Inl e \<Rightarrow> Inl e | Inr s \<Rightarrow> collect_stops (stops @ [s]) ks)"

definition py_max :: "int list \<Rightarrow> error + int" where
  "py_max xs = (case xs of [] \<Rightarrow> Inl ValueError | y # ys \<Rightarrow> Inr (fold max ys y))"

definition get_next_interval_start :: "pydict \<Rightarrow> error + int" where
  "get_next_interval_start result =
     (case collect_stops [] (map fst result) of
        Inl e \<Rightarrow> Inl e
      | Inr stops \<Rightarrow> (case py_max stops of Inl e \<Rightarrow> Inl e | Inr m \<Rightarrow> Inr (m + 1)))"

section \<open>The two services, the clock and the rate limit\<close>

text \<open>
  \<^verbatim>\<open>requests.get(url)\<close> either raises or returns a response, of which the notebook reads
  \<^verbatim>\<open>status_code\<close> and \<^verbatim>\<open>json()\<close>; the latter raises when the body is not JSON
  (\<open>body = None\<close>). \<open>elapsed\<close> is the time between sending the request and the arrival
  of the response, in milliseconds. The services are a parameter: a function from the
  state of the outside world and the URL to the outcome and the next state of the world.
\<close>

record response =
  status_code :: int
  body :: "json option"
  elapsed :: nat

definition res_json :: "response \<Rightarrow> error + json" where
  "res_json res = (case body res of None \<Rightarrow> Inl JSONDecodeError | Some data \<Rightarrow> Inr data)"

type_synonym 'w http = "'w \<Rightarrow> string \<Rightarrow> (error + response) \<times> 'w"

text \<open>
  Both functions of the notebook are decorated with \<^verbatim>\<open>@limits(calls=1, period=1)\<close>.
  The decorator belongs to the package \<open>ratelimit\<close>, whose code is not in the
  repository; it is modelled from the documentation of that package: the decorated
  function ``will not be able to make more than'' \<open>calls\<close> calls ``within'' a period of
  \<open>period\<close> seconds, and ``if a decorated function is called more times than that allowed
  within the specified time period then a \<open>ratelimit.RateLimitException\<close> is raised''.
  Each decorated function has its own count: the time at which the running period began
  and the calls counted in it. A call that finds the period over begins a new one; every
  call is counted; the call is let through when the count does not exceed \<open>calls\<close>.
  Times are in milliseconds.
\<close>

record limiter =
  last_reset :: nat
  num_calls :: nat

definition limits :: "limiter \<Rightarrow> nat \<Rightarrow> bool \<times> limiter" where
  "limits l now =
     (let l1 = (if last_reset l + 1000 \<le> now then \<lparr>last_reset = now, num_calls = 0\<rparr> else l);
          l2 = l1\<lparr>num_calls := num_calls l1 + 1\<rparr>
      in (num_calls l2 \<le> 1, l2))"

text \<open>
  The notebook's state: the global dict \<^verbatim>\<open>coll\<close>, the outside world, the clock, and the
  counts of the two decorators. \<open>sent\<close> lists the URLs requested so far, oldest first,
  and \<open>sent_at\<close> the times at which they were sent. A request takes the time that its
  response reports (none when it raises), \<^verbatim>\<open>time.sleep(1)\<close> takes one second, and all
  other statements take no time. \<^verbatim>\<open>print\<close> acts on the screen, which the model does
  not have.
\<close>

record 'w notebook =
  coll :: pydict
  world :: 'w
  sent :: "string list"
  sent_at :: "nat list"
  clock :: nat
  gene_limit :: limiter
  freq_limit :: limiter

definition requests_get ::
  "'w http \<Rightarrow> 'w notebook \<Rightarrow> string \<Rightarrow> (error + response) \<times> 'w notebook" where
  "requests_get http st url =
     (case http (world st) url of
        (r, w) \<Rightarrow>
          (r, st\<lparr>world := w, sent := sent st @ [url], sent_at := sent_at st @ [clock st],
                  clock := clock st + (case r of Inl e \<Rightarrow> 0 | Inr res \<Rightarrow> elapsed res)\<rparr>))"

section \<open>The gene's location\<close>

text \<open>
  \<^verbatim>\<open>
  def get_gene_loc(gene_id: str) -> List[Any]:
      esum_url=(f'https://eutils.ncbi.nlm.nih.gov/entrez/eutils/'
                f'esummary.fcgi?db=gene&id={gene_id}&format=json')
      res = requests.get(esum_url)
      if res.status_code != 200:
          raise("Failed to get gene information")
      data = res.json()
      if ('result' not in data or gene_id not in data['result'] or
          'genomicinfo' not in data['result'][gene_id]):
          raise("Genomic information is not avaible for this gene")
      loc = data['result'][gene_id]['genomicinfo'][0]
      chraccver = loc['chraccver']
      chrstart = int(loc['chrstart'])
      chrstop = int(loc['chrstop'])
      if chrstart > chrstop:
          chrstart, chrstop = chrstop, chrstart
      return (chraccver, chrstart, chrstop)
  \<close>
  \<open>has_genomicinfo\<close> is the negation of the condition of the second \<^verbatim>\<open>if\<close>, with the
  short-circuit of \<^verbatim>\<open>or\<close>: a later operand is evaluated only when the earlier ones are
  false. \<open>first_genomicinfo\<close> is the chain of subscripts that follows it.
  \<open>get_gene_loc_wrapped\<close> is the function as the \<^verbatim>\<open>def\<close> writes it, and \<open>get_gene_loc\<close>
  is what the name is bound to after the decoration: the decorator's check, then the
  function.
\<close>

definition esum_url :: "string \<Rightarrow> string" where
  "esum_url gene_id =
     ''https://eutils.ncbi.nlm.nih.gov/entrez/eutils/'' @
     ''esummary.fcgi?db=gene&id='' @ gene_id @ ''&format=json''"

definition has_genomicinfo :: "json \<Rightarrow> string \<Rightarrow> error + bool" where
  "has_genomicinfo data gene_id =
     (case py_in ''result'' data of
        Inl e \<Rightarrow> Inl e
      | Inr False \<Rightarrow> Inr False
      | Inr True \<Rightarrow>
          (case py_getitem data ''result'' of
             Inl e \<Rightarrow> Inl e
           | Inr result \<Rightarrow>
               (case py_in gene_id result of
                  Inl e \<Rightarrow> Inl e
                | Inr False \<Rightarrow> Inr False
                | Inr True \<Rightarrow>
                    (case py_getitem result gene_id of
                       Inl e \<Rightarrow> Inl e
                     | Inr gene \<Rightarrow> py_in ''genomicinfo'' gene))))"

definition first_genomicinfo :: "json \<Rightarrow> string \<Rightarrow> error + json" where
  "first_genomicinfo data gene_id =
     (case py_getitem data ''result'' of
        Inl e \<Rightarrow> Inl e
      | Inr result \<Rightarrow>
          (case py_getitem result gene_id of
             Inl e \<Rightarrow> Inl e
           | Inr gene \<Rightarrow>
               (case py_getitem gene ''genomicinfo'' of
                  Inl e \<Rightarrow> Inl e
                | Inr infos \<Rightarrow> py_getitem0 infos)))"

definition get_gene_loc_wrapped ::
  "'w http \<Rightarrow> 'w notebook \<Rightarrow> string \<Rightarrow> (error + json \<times> int \<times> int) \<times> 'w notebook" where
  "get_gene_loc_wrapped http st gene_id =
     (case requests_get http st (esum_url gene_id) of
        (Inl e, st1) \<Rightarrow> (Inl e, st1)
      | (Inr res, st1) \<Rightarrow>
          (if status_code res \<noteq> 200 then Inl raise_str
           else case res_json res of
             Inl e \<Rightarrow> Inl e
           | Inr data \<Rightarrow>
               (case has_genomicinfo data gene_id of
                  Inl e \<Rightarrow> Inl e
                | Inr False \<Rightarrow> Inl raise_str
                | Inr True \<Rightarrow>
                    (case first_genomicinfo data gene_id of
                       Inl e \<Rightarrow> Inl e
                     | Inr loc \<Rightarrow>
                         (case py_getitem loc ''chraccver'' of
                            Inl e \<Rightarrow> Inl e
                          | Inr chraccver \<Rightarrow>
                              (case py_getitem loc ''chrstart'' of
                                 Inl e \<Rightarrow> Inl e
                               | Inr x \<Rightarrow>
                                   (case py_int x of
                                      Inl e \<Rightarrow> Inl e
                                    | Inr chrstart \<Rightarrow>
                                        (case py_getitem loc ''chrstop'' of
                                           Inl e \<Rightarrow> Inl e
                                         | Inr y \<Rightarrow>
                                             (case py_int y of
                                                Inl e \<Rightarrow> Inl e
                                              | Inr chrstop \<Rightarrow>
                                                  (if chrstart > chrstop
                                                   then Inr (chraccver, chrstop, chrstart)
                                                   else Inr (chraccver, chrstart, chrstop))))))))),
           st1))"

definition get_gene_loc ::
  "'w http \<Rightarrow> 'w notebook \<Rightarrow> string \<Rightarrow> (error + json \<times> int \<times> int) \<times> 'w notebook" where
  "get_gene_loc http st gene_id =
     (case limits (gene_limit st) (clock st) of
        (admitted, l) \<Rightarrow>
          (if admitted then get_gene_loc_wrapped http (st\<lparr>gene_limit := l\<rparr>) gene_id
           else (Inl RateLimitException, st\<lparr>gene_limit := l\<rparr>)))"

section \<open>Paging through an interval\<close>

text \<open>
  \<^verbatim>\<open>coll.update(x)\<close>. A dict is merged entry by entry. Python also takes any iterable
  of pairs: each element must itself have exactly two elements (a list of two, a string of
  two characters, a dict of two keys), the first of them hashable, and the entries before
  an offending element stay in \<^verbatim>\<open>coll\<close>. Keys that compare equal in Python (\<open>True\<close>,
  \<open>1\<close> and \<open>1.0\<close>; the infinities of one sign) are stored as the same key.
\<close>

fun hashable :: "json \<Rightarrow> error + json" where
  "hashable (JArr xs) = Inl TypeError"
| "hashable (JObj kvs) = Inl TypeError"
| "hashable (JBool b) = Inr (JInt (if b then 1 else 0))"
| "hashable (JFloat q) =
     Inr (if q > max_double then JFloat (max_double + 1)
          else if q < - max_double then JFloat (- max_double - 1)
          else if of_int \<lfloor>q\<rfloor> = q then JInt \<lfloor>q\<rfloor> else JFloat q)"
| "hashable k = Inr k"

fun update_pair :: "json \<Rightarrow> error + json \<times> json" where
  "update_pair (JArr xs) =
     (case xs of
        [k, v] \<Rightarrow> (case hashable k of Inl e \<Rightarrow> Inl e | Inr k' \<Rightarrow> Inr (k', v))
      | _ \<Rightarrow> Inl ValueError)"
| "update_pair (JStr s) =
     (case s of [a, b] \<Rightarrow> Inr (JStr [a], JStr [b]) | _ \<Rightarrow> Inl ValueError)"
| "update_pair (JObj kvs) =
     (case rev (remdups (rev (map fst kvs))) of
        [a, b] \<Rightarrow> Inr (JStr a, JStr b)
      | _ \<Rightarrow> Inl ValueError)"
| "update_pair _ = Inl TypeError"

fun dict_update_seq :: "pydict \<Rightarrow> json list \<Rightarrow> (error + unit) \<times> pydict" where
  "dict_update_seq d [] = (Inr (), d)"
| "dict_update_seq d (x # xs) =
     (case update_pair x of
        Inl e \<Rightarrow> (Inl e, d)
      | Inr (k, v) \<Rightarrow> dict_update_seq (dict_setitem k v d) xs)"

fun dict_merge :: "pydict \<Rightarrow> (string \<times> json) list \<Rightarrow> pydict" where
  "dict_merge d [] = d"
| "dict_merge d ((k, v) # kvs) = dict_merge (dict_setitem (JStr k) v d) kvs"

fun dict_update :: "pydict \<Rightarrow> json \<Rightarrow> (error + unit) \<times> pydict" where
  "dict_update d (JObj kvs) = (Inr (), dict_merge d kvs)"
| "dict_update d (JArr xs) = dict_update_seq d xs"
| "dict_update d (JStr s) = (if s = [] then (Inr (), d) else (Inl ValueError, d))"
| "dict_update d _ = (Inl TypeError, d)"

text \<open>
  \<^verbatim>\<open>
  def get_freq_by_interval(seq_id: str, start: int, stop: int) -> None:
      api_url = (f'https://api.ncbi.nlm.nih.gov/variation/v0/interval/'
                 f'{seq_id}:{start}:{stop - start + 1}'
                 f'/overlapping_frequency_records')
      res = requests.get(api_url)
      global coll
      if res.status_code == 200:
          coll.update(res.json()['results'])
          return
      elif res.status_code == 206:
          coll.update(res.json()['results'])
          time.sleep(1)
          get_freq_by_interval(seq_id, get_next_interval_start(coll), stop)
      elif res.status_code >= 400:
          raise (f'API request returned with error code {res.status_code}\n'
                 f'Request: {api_url}\n'
                 f'Response: {res.json()}')
      else:
          raise(f'Unexpected return code: {res.status_code}')
  \<close>
  The function is decorated as well, and the name it calls in its own body is the
  decorated one: every call, the recursive ones too, passes the decorator's check first.
  It calls itself once for every partial page. Nothing in the notebook bounds the number
  of pages, but the interpreter bounds the depth of nested calls and raises
  \<open>RecursionError\<close> beyond it: the first argument is the number of nested calls of
  this function that the interpreter still allows (some hundreds, depending on its
  recursion limit and on the frames in use), and a call that does not fit raises before
  doing anything. The result is the exception raised, if any, and the notebook's state at
  that moment. In the branch of a partial page the sleep comes before the argument
  \<^verbatim>\<open>get_next_interval_start(coll)\<close> is evaluated. The text of the third \<^verbatim>\<open>raise\<close> is
  built before the statement runs, so \<^verbatim>\<open>res.json()\<close> fails there first when the body
  is not JSON.
\<close>

definition api_url :: "string \<Rightarrow> int \<Rightarrow> int \<Rightarrow> string" where
  "api_url seq_id start stop =
     ''https://api.ncbi.nlm.nih.gov/variation/v0/interval/'' @
     seq_id @ '':'' @ str_int start @ '':'' @ str_int (stop - start + 1) @
     ''/overlapping_frequency_records''"

definition results_of :: "response \<Rightarrow> error + json" where
  "results_of res =
     (case res_json res of Inl e \<Rightarrow> Inl e | Inr data \<Rightarrow> py_getitem data ''results'')"

fun get_freq_by_interval ::
  "nat \<Rightarrow> 'w http \<Rightarrow> 'w notebook \<Rightarrow> string \<Rightarrow> int \<Rightarrow> int \<Rightarrow>
   (error + unit) \<times> 'w notebook" where
  "get_freq_by_interval 0 http st seq_id start stop = (Inl RecursionError, st)"
| "get_freq_by_interval (Suc depth) http st seq_id start stop =
     (case limits (freq_limit st) (clock st) of
        (admitted, l) \<Rightarrow>
          (if \<not> admitted then (Inl RateLimitException, st\<lparr>freq_limit := l\<rparr>)
           else
             (case requests_get http (st\<lparr>freq_limit := l\<rparr>) (api_url seq_id start stop) of
                (Inl e, st1) \<Rightarrow> (Inl e, st1)
              | (Inr res, st1) \<Rightarrow>
                  (if status_code res = 200 then
                     (case results_of res of
                        Inl e \<Rightarrow> (Inl e, st1)
                      | Inr results \<Rightarrow>
                          (case dict_update (coll st1) results of
                             (r, d) \<Rightarrow> (r, st1\<lparr>coll := d\<rparr>)))
                   else if status_code res = 206 then
                     (case results_of res of
                        Inl e \<Rightarrow> (Inl e, st1)
                      | Inr results \<Rightarrow>
                          (case dict_update (coll st1) results of
                             (Inl e, d) \<Rightarrow> (Inl e, st1\<lparr>coll := d\<rparr>)
                           | (Inr u, d) \<Rightarrow>
                               (case get_next_interval_start d of
                                  Inl e \<Rightarrow>
                                    (Inl e, st1\<lparr>coll := d, clock := clock st1 + 1000\<rparr>)
                                | Inr next_start \<Rightarrow>
                                    get_freq_by_interval depth http
                                      (st1\<lparr>coll := d, clock := clock st1 + 1000\<rparr>)
                                      seq_id next_start stop)))
                   else if status_code res \<ge> 400 then
                     (case res_json res of
                        Inl e \<Rightarrow> (Inl e, st1)
                      | Inr data \<Rightarrow> (Inl raise_str, st1))
                   else (Inl raise_str, st1)))))"

text \<open>
  The last cell of the notebook empties the accumulator and starts the paging:
  \<^verbatim>\<open>
  coll = {}
  get_freq_by_interval(chraccver, chrstart, chrstop)
  \<close>
\<close>

definition last_cell ::
  "nat \<Rightarrow> 'w http \<Rightarrow> 'w notebook \<Rightarrow> string \<Rightarrow> int \<Rightarrow> int \<Rightarrow>
   (error + unit) \<times> 'w notebook" where
  "last_cell depth http st chraccver chrstart chrstop =
     get_freq_by_interval depth http (st\<lparr>coll := []\<rparr>) chraccver chrstart chrstop"


section \<open>Services to run the notebook against\<close>

text \<open>
  A service that answers from a script, whatever the URL: the outcomes of the successive
  requests, and a failed request once the script is over.
\<close>

definition scripted :: "(error + response) list http" where
  "scripted w url = (case w of [] \<Rightarrow> (Inl RequestException, []) | r # rs \<Rightarrow> (r, rs))"

text \<open>
  The notebook just after its cells were run at time 0: both decorators have counted
  nothing, nothing was requested, the accumulator is empty.
\<close>

definition fresh :: "'w \<Rightarrow> 'w notebook" where
  "fresh w =
     \<lparr>coll = [], world = w, sent = [], sent_at = [], clock = 0,
      gene_limit = \<lparr>last_reset = 0, num_calls = 0\<rparr>,
      freq_limit = \<lparr>last_reset = 0, num_calls = 0\<rparr>\<rparr>"

text \<open>
  The state in which a call of \<open>get_freq_by_interval\<close> that the decorator lets through
  has its response \<open>res\<close> to the request \<open>url\<close>, the world being left as \<open>w\<close>.
\<close>

definition answered :: "'w notebook \<Rightarrow> string \<Rightarrow> response \<Rightarrow> 'w \<Rightarrow> 'w notebook" where
  "answered st url res w =
     st\<lparr>freq_limit := snd (limits (freq_limit st) (clock st)), world := w,
        sent := sent st @ [url], sent_at := sent_at st @ [clock st],
        clock := clock st + elapsed res\<rparr>"

text \<open>
  The frequency service as the text of the notebook describes it; its code is not part
  of the repository. It ``takes a sequence interval (i.e., sequence ID, interval start
  position and length), finds all variants overlapping with that interval'', ``only
  returns the first 250 variants'' by position, and ``uses the http status code 206''
  when there are more. A variant is its length and its start, which make its key; as in
  \<open>get_next_interval_start\<close>, its stop position is start plus length. The page size is a
  parameter, and the service answers at once.
\<close>

type_synonym variant = "int \<times> int"

definition variant_key :: "variant \<Rightarrow> string" where
  "variant_key v = str_int (fst v) @ ''@'' @ str_int (snd v)"

definition overlapping :: "variant list \<Rightarrow> int \<Rightarrow> int \<Rightarrow> variant list" where
  "overlapping db position len =
     sort_key snd (filter (\<lambda>v. snd v \<le> position + len - 1 \<and> position \<le> snd v + fst v) db)"

definition frequency_records :: "nat \<Rightarrow> variant list \<Rightarrow> int \<Rightarrow> int \<Rightarrow> response" where
  "frequency_records page_size db position len =
     (let found = overlapping db position len in
      \<lparr>status_code = (if length found > page_size then 206 else 200),
       body = Some (JObj [(''results'',
                JObj (map (\<lambda>v. (variant_key v, JNull)) (take page_size found)))]),
       elapsed = 0\<rparr>)"

definition frequency_service :: "nat \<Rightarrow> variant list \<Rightarrow> unit http" where
  "frequency_service page_size db w url =
     (case split_at CHR '':''
             (drop (length ''https://api.ncbi.nlm.nih.gov/variation/v0/interval/'') url) of
        [seq_id, position, rest] \<Rightarrow>
          (case (int_of_str position, int_of_str (takeWhile (\<lambda>c. c \<noteq> CHR ''/'') rest)) of
             (Inr p, Inr l) \<Rightarrow> (Inr (frequency_records page_size db p l), w)
           | _ \<Rightarrow> (Inr \<lparr>status_code = 400, body = None, elapsed = 0\<rparr>, w))
      | _ \<Rightarrow> (Inr \<lparr>status_code = 400, body = None, elapsed = 0\<rparr>, w))"

section \<open>Auxiliary facts\<close>

subsection \<open>Keys of the form length@start\<close>

text \<open>
  A string that \<open>int\<close> accepts holds no \<open>@\<close>, so a key \<open>ls @ ''@'' @ ss\<close> made of two
  integer texts splits into exactly these two pieces, and the loop of
  \<open>get_next_interval_start\<close> collects one stop position for every key.
\<close>

lemma set_dropWhile_sup: "set s \<subseteq> {c. P c} \<union> set (dropWhile P s)"
  by (induction s) auto

lemma set_strip: "set s \<subseteq> {c. is_space c} \<union> set (strip s)"
proof -
  let ?u = "dropWhile is_space s"
  have "set s \<subseteq> {c. is_space c} \<union> set ?u" by (rule set_dropWhile_sup)
  moreover have "set (rev ?u) \<subseteq> {c. is_space c} \<union> set (dropWhile is_space (rev ?u))"
    by (rule set_dropWhile_sup)
  moreover have "set (strip s) = set (dropWhile is_space (rev ?u))"
    by (simp add: strip_def)
  ultimately show ?thesis by (simp only: set_rev) blast
qed

lemma at_not_space: "\<not> is_space CHR ''@''" by (simp add: is_space_def)

lemma at_not_digit: "digit_val CHR ''@'' = None" by (simp add: digit_val_def)

lemma parse_digits_no_at: "parse_digits acc s = Some n \<Longrightarrow> CHR ''@'' \<notin> set s"
  by (induction acc s rule: parse_digits.induct) (auto simp: at_not_digit split: option.splits if_splits)

lemma parse_nat_no_at: "parse_nat s = Some n \<Longrightarrow> CHR ''@'' \<notin> set s"
  by (cases s) (auto simp: at_not_digit split: option.splits dest: parse_digits_no_at)

lemma int_of_str_Cons:
  "strip s = c # cs \<Longrightarrow> int_of_str s = Inr n \<Longrightarrow>
   (\<exists>m. parse_nat (if c = CHR ''-'' \<or> c = CHR ''+'' then cs else c # cs) = Some m)"
  unfolding int_of_str_def by (simp split: option.splits if_splits)

lemma int_of_str_strip_no_at:
  assumes "int_of_str s = Inr n"
  shows "CHR ''@'' \<notin> set (strip s)"
proof (cases "strip s")
  case Nil
  then show ?thesis by simp
next
  case (Cons c cs)
  from int_of_str_Cons [OF Cons assms]
  obtain m where m: "parse_nat (if c = CHR ''-'' \<or> c = CHR ''+'' then cs else c # cs) = Some m" ..
  have "CHR ''@'' \<notin> set (if c = CHR ''-'' \<or> c = CHR ''+'' then cs else c # cs)"
    using m by (rule parse_nat_no_at)
  then have "CHR ''@'' \<notin> set (c # cs)"
    by (cases "c = CHR ''-'' \<or> c = CHR ''+''") auto
  with Cons show ?thesis by simp
qed

lemma int_of_str_no_at: "int_of_str s = Inr n \<Longrightarrow> CHR ''@'' \<notin> set s"
  using set_strip [of s] at_not_space int_of_str_strip_no_at [of s n] by auto

lemma split_at_none: "sep \<notin> set s \<Longrightarrow> split_at sep s = [s]"
  by (induction s) auto

lemma split_at_once: "sep \<notin> set a \<Longrightarrow> sep \<notin> set b \<Longrightarrow> split_at sep (a @ sep # b) = [a, b]"
  by (induction a) (auto simp: split_at_none)

lemma key_stop_form:
  assumes "int_of_str ls = Inr l" and "int_of_str ss = Inr s"
  shows "key_stop (JStr (ls @ ''@'' @ ss)) = Inr (l + s)"
proof -
  have "CHR ''@'' \<notin> set ls" "CHR ''@'' \<notin> set ss"
    using assms int_of_str_no_at by blast+
  then have "split_at CHR ''@'' (ls @ ''@'' @ ss) = [ls, ss]"
    using split_at_once [of "CHR ''@''" ls ss] by simp
  then show ?thesis using assms by simp
qed

lemma collect_stops_map:
  "\<forall>k \<in> set ks. key_stop k = Inr (f k) \<Longrightarrow> collect_stops acc ks = Inr (acc @ map f ks)"
  by (induction ks arbitrary: acc) auto

lemma py_max_Max: "xs \<noteq> [] \<Longrightarrow> py_max xs = Inr (Max (set xs))"
  by (cases xs) (simp_all add: py_max_def Max.set_eq_fold [symmetric])

lemma next_start_formula:
  fixes len pos :: "json \<Rightarrow> int"
  assumes ne: "result \<noteq> []"
    and keys: "\<forall>k \<in> set (map fst result). \<exists>ls ss. k = JStr (ls @ ''@'' @ ss) \<and>
                 int_of_str ls = Inr (len k) \<and> int_of_str ss = Inr (pos k)"
  shows "get_next_interval_start result = Inr (Max ((\<lambda>k. len k + pos k) ` set (map fst result)) + 1)"
proof -
  have "\<forall>k \<in> set (map fst result). key_stop k = Inr (len k + pos k)"
  proof
    fix k assume "k \<in> set (map fst result)"
    with keys obtain ls ss where "k = JStr (ls @ ''@'' @ ss)"
      "int_of_str ls = Inr (len k)" "int_of_str ss = Inr (pos k)" by blast
    then show "key_stop k = Inr (len k + pos k)"
      using key_stop_form [of ls "len k" ss "pos k"] by simp
  qed
  then have c: "collect_stops [] (map fst result) = Inr (map (\<lambda>k. len k + pos k) (map fst result))"
    using collect_stops_map [of "map fst result" "\<lambda>k. len k + pos k" "[]"] by simp
  have "map (\<lambda>k. len k + pos k) (map fst result) \<noteq> []"
    using ne by simp
  then have "py_max (map (\<lambda>k. len k + pos k) (map fst result)) =
      Inr (Max (set (map (\<lambda>k. len k + pos k) (map fst result))))"
    by (rule py_max_Max)
  with c show ?thesis
    unfolding get_next_interval_start_def by (simp only: sum.case set_map)
qed


lemma int_of_str_examples:
  "int_of_str ''10'' = Inr 10" "int_of_str ''0'' = Inr 0"
  "int_of_str ''5'' = Inr 5" "int_of_str ''20'' = Inr 20"
  by code_simp+


subsection \<open>The decimal text of an integer reads back as that integer\<close>

lemma digit_val_digit_char: "n < 10 \<Longrightarrow> digit_val (digit_char n) = Some n"
  by (simp add: digit_val_def digit_char_def)

lemma digit_char_not_space: "n < 10 \<Longrightarrow> \<not> is_space (digit_char n)"
  by (simp add: is_space_def digit_char_def)

lemma digit_val_not_sign: "digit_val c = Some v \<Longrightarrow> c \<noteq> CHR ''-'' \<and> c \<noteq> CHR ''+'' \<and> c \<noteq> CHR ''_''"
  by (auto simp: digit_val_def)

lemma minus_not_space: "\<not> is_space CHR ''-''"
  by (simp add: is_space_def)

lemma parse_digits_digit:
  "digit_val d = Some v \<Longrightarrow> parse_digits acc (d # ds) = parse_digits (10 * acc + v) ds"
  by (cases ds) (auto dest: digit_val_not_sign)

lemma parse_digits_snoc:
  "\<forall>d \<in> set ds. digit_val d \<noteq> None \<Longrightarrow> digit_val c = Some v \<Longrightarrow>
   parse_digits acc (ds @ [c]) =
     (case parse_digits acc ds of None \<Rightarrow> None | Some a \<Rightarrow> Some (10 * a + v))"
proof (induction ds arbitrary: acc)
  case Nil
  then show ?case by simp
next
  case (Cons d ds)
  then obtain dv where dv: "digit_val d = Some dv" by auto
  have "parse_digits acc ((d # ds) @ [c]) = parse_digits (10 * acc + dv) (ds @ [c])"
    using parse_digits_digit [OF dv] by simp
  also have "\<dots> = (case parse_digits (10 * acc + dv) ds of None \<Rightarrow> None | Some a \<Rightarrow> Some (10 * a + v))"
    using Cons by simp
  also have "parse_digits (10 * acc + dv) ds = parse_digits acc (d # ds)"
    using parse_digits_digit [OF dv] by simp
  finally show ?case .
qed

lemma digits_of_digits: "\<forall>d \<in> set (digits_of n). digit_val d \<noteq> None"
proof (induction n rule: digits_of.induct)
  case (1 n)
  show ?case
  proof (cases "n < 10")
    case True
    then show ?thesis by (simp add: digits_of.simps [of n] digit_val_digit_char)
  next
    case False
    then have "digit_val (digit_char (n mod 10)) = Some (n mod 10)"
      by (simp add: digit_val_digit_char)
    with False 1 show ?thesis by (simp add: digits_of.simps [of n])
  qed
qed

lemma digits_of_not_Nil: "digits_of n \<noteq> []"
  by (simp add: digits_of.simps [of n])

lemma parse_nat_snoc:
  assumes "\<forall>d \<in> set ds. digit_val d \<noteq> None" "ds \<noteq> []" "digit_val c = Some v"
  shows "parse_nat (ds @ [c]) = (case parse_nat ds of None \<Rightarrow> None | Some a \<Rightarrow> Some (10 * a + v))"
proof -
  from assms obtain d ds' where ds: "ds = d # ds'" by (cases ds) auto
  with assms obtain dv where dv: "digit_val d = Some dv" by auto
  have "\<forall>d \<in> set ds'. digit_val d \<noteq> None" using assms ds by simp
  then show ?thesis using ds dv assms(3) parse_digits_snoc [of ds' c v dv] by simp
qed

lemma parse_nat_digits_of: "parse_nat (digits_of n) = Some n"
proof (induction n rule: digits_of.induct)
  case (1 n)
  show ?case
  proof (cases "n < 10")
    case True
    then show ?thesis by (simp add: digits_of.simps [of n] digit_val_digit_char)
  next
    case False
    have c: "digit_val (digit_char (n mod 10)) = Some (n mod 10)"
      by (simp add: digit_val_digit_char)
    have "parse_nat (digits_of (n div 10) @ [digit_char (n mod 10)]) =
        (case parse_nat (digits_of (n div 10)) of None \<Rightarrow> None | Some a \<Rightarrow> Some (10 * a + n mod 10))"
      using digits_of_digits digits_of_not_Nil c by (rule parse_nat_snoc)
    with False 1 show ?thesis by (simp add: digits_of.simps [of n])
  qed
qed

lemma strip_id:
  assumes "s \<noteq> []" "\<not> is_space (hd s)" "\<not> is_space (last s)"
  shows "strip s = s"
proof -
  from assms have "dropWhile is_space s = s" by (cases s) auto
  moreover from assms have "dropWhile is_space (rev s) = rev s"
    by (cases "rev s") (auto simp: last_rev hd_rev)
  ultimately show ?thesis by (simp add: strip_def)
qed

lemma digits_of_no_space: "c \<in> set (digits_of n) \<Longrightarrow> \<not> is_space c"
  using digits_of_digits [of n] by (auto simp: digit_val_def is_space_def split: if_splits)

lemma strip_digits_of: "strip (digits_of n) = digits_of n"
  using digits_of_not_Nil [of n] digits_of_no_space [of _ n]
  by (intro strip_id) auto

lemma strip_minus_digits_of: "strip (CHR ''-'' # digits_of n) = CHR ''-'' # digits_of n"
  using digits_of_not_Nil [of n] digits_of_no_space [of _ n] minus_not_space
  by (intro strip_id) auto

lemma int_of_str_str_int: "int_of_str (str_int i) = Inr i"
proof (cases "i < 0")
  case True
  then show ?thesis
    by (simp add: int_of_str_def str_int_def strip_minus_digits_of parse_nat_digits_of)
next
  case False
  obtain c cs where d: "digits_of (nat i) = c # cs"
    using digits_of_not_Nil [of "nat i"] by (cases "digits_of (nat i)") auto
  then have "digit_val c \<noteq> None" using digits_of_digits [of "nat i"] by simp
  then have "c \<noteq> CHR ''-''" "c \<noteq> CHR ''+''" using digit_val_not_sign by auto
  moreover have "parse_nat (c # cs) = Some (nat i)" using parse_nat_digits_of [of "nat i"] d by simp
  moreover have "strip (digits_of (nat i)) = c # cs" using strip_digits_of [of "nat i"] d by simp
  ultimately show ?thesis using False
    by (simp add: int_of_str_def str_int_def)
qed

subsection \<open>Merging pages into the accumulator\<close>

lemma keys_dict_setitem: "fst ` set (dict_setitem k v d) = insert k (fst ` set d)"
  by (induction d) auto

lemma distinct_dict_setitem: "distinct (map fst d) \<Longrightarrow> distinct (map fst (dict_setitem k v d))"
  by (induction d) (auto simp: keys_dict_setitem)

lemma keys_dict_merge: "fst ` set (dict_merge d kvs) = fst ` set d \<union> JStr ` fst ` set kvs"
  by (induction d kvs rule: dict_merge.induct) (auto simp: keys_dict_setitem)

lemma distinct_dict_merge: "distinct (map fst d) \<Longrightarrow> distinct (map fst (dict_merge d kvs))"
  by (induction d kvs rule: dict_merge.induct) (auto simp: distinct_dict_setitem)


lemma distinct_fold_dict_merge:
  "distinct (map fst d) \<Longrightarrow> distinct (map fst (fold (\<lambda>r d. dict_merge d (members r)) rs d))"
  by (induction rs arbitrary: d) (auto simp: distinct_dict_merge)

subsection \<open>The rate limit\<close>

text \<open>
  A call is let through when the period is over or nothing was counted in it. After a call
  that was let through, a call that comes a second or more after it is let through as well,
  provided the period did not begin in the future.
\<close>

lemma limits_admit: "fst (limits l now) \<longleftrightarrow> last_reset l + 1000 \<le> now \<or> num_calls l = 0"
  by (simp add: limits_def Let_def)

lemma limits_last_reset:
  "last_reset l \<le> now \<Longrightarrow> last_reset (snd (limits l now)) \<le> now"
  by (simp add: limits_def Let_def)

lemma limits_again:
  "last_reset l \<le> now \<Longrightarrow> fst (limits (snd (limits l now)) (now + e + 1000))"
  using limits_last_reset [of l now] by (simp add: limits_admit)

lemma fresh_admits:
  "fst (limits (freq_limit (fresh w)) (clock (fresh w)))"
  "fst (limits (gene_limit (fresh w)) (clock (fresh w)))"
  "last_reset (freq_limit (fresh w)) \<le> clock (fresh w)"
  by (simp_all add: fresh_def limits_def)

lemma fresh_fields:
  "coll (fresh w) = []" "world (fresh w) = w" "sent (fresh w) = []" "sent_at (fresh w) = []"
  "clock (fresh w) = 0"
  by (simp_all add: fresh_def)

subsection \<open>One call of the paginator\<close>

text \<open>
  A call that the decorator refuses raises at once. A call that it lets through sends one
  request; what follows depends on the status of the response: a complete page ends the
  paging, a partial page leads to the next call after a sleep, anything else raises.
\<close>

lemma requests_get_fields:
  "requests_get http st url = (x, st1) \<Longrightarrow>
   sent st1 = sent st @ [url] \<and> sent_at st1 = sent_at st @ [clock st] \<and> coll st1 = coll st \<and>
   clock st \<le> clock st1 \<and> freq_limit st1 = freq_limit st \<and> gene_limit st1 = gene_limit st"
  by (auto simp: requests_get_def split: prod.splits)

lemma requests_get_Inr:
  "http (world st) url = (Inr res, w) \<Longrightarrow>
   requests_get http (st\<lparr>freq_limit := snd (limits (freq_limit st) (clock st))\<rparr>) url =
     (Inr res, answered st url res w)"
  by (simp add: requests_get_def answered_def)

lemma requests_get_limited:
  assumes "requests_get http (st\<lparr>freq_limit := l\<rparr>) url = (x, st1)"
  shows "sent st1 = sent st @ [url]" "sent_at st1 = sent_at st @ [clock st]"
    "coll st1 = coll st" "clock st \<le> clock st1"
  using requests_get_fields [OF assms] by simp_all

lemma answered_fields:
  "coll (answered st url res w) = coll st"
  "clock (answered st url res w) = clock st + elapsed res"
  "sent (answered st url res w) = sent st @ [url]"
  "sent_at (answered st url res w) = sent_at st @ [clock st]"
  "world (answered st url res w) = w"
  "freq_limit (answered st url res w) = snd (limits (freq_limit st) (clock st))"
  "gene_limit (answered st url res w) = gene_limit st"
  by (simp_all add: answered_def)

lemma keys_dict_update_seq:
  "dict_update_seq d xs = (r, d') \<Longrightarrow> fst ` set d \<subseteq> fst ` set d'"
proof (induction xs arbitrary: d)
  case Nil
  then show ?case by simp
next
  case (Cons x xs)
  show ?case
  proof (cases "update_pair x")
    case (Inl e)
    with Cons.prems show ?thesis by simp
  next
    case (Inr kv)
    obtain k v where kv: "kv = (k, v)" by (cases kv)
    with Inr Cons.prems have "dict_update_seq (dict_setitem k v d) xs = (r, d')" by simp
    from Cons.IH [OF this] show ?thesis by (auto simp: keys_dict_setitem)
  qed
qed

lemma keys_dict_update:
  assumes "dict_update d x = (r, d')"
  shows "fst ` set d \<subseteq> fst ` set d'"
proof (cases x)
  case (JObj kvs)
  with assms have "d' = dict_merge d kvs" by simp
  then show ?thesis using keys_dict_merge [of d kvs] by auto
next
  case (JArr xs)
  with assms show ?thesis using keys_dict_update_seq [of d xs r d'] by simp
qed (insert assms, auto split: if_splits)

lemma step_refused:
  "\<not> fst (limits (freq_limit st) (clock st)) \<Longrightarrow>
   get_freq_by_interval (Suc depth) http st seq_id start stop =
     (Inl RateLimitException, st\<lparr>freq_limit := snd (limits (freq_limit st) (clock st))\<rparr>)"
  by (cases "limits (freq_limit st) (clock st)") simp

lemma step_admitted:
  "fst (limits (freq_limit st) (clock st)) \<Longrightarrow>
   get_freq_by_interval (Suc depth) http st seq_id start stop =
     (case requests_get http (st\<lparr>freq_limit := snd (limits (freq_limit st) (clock st))\<rparr>)
             (api_url seq_id start stop) of
        (Inl e, st1) \<Rightarrow> (Inl e, st1)
      | (Inr res, st1) \<Rightarrow>
          (if status_code res = 200 then
             (case results_of res of
                Inl e \<Rightarrow> (Inl e, st1)
              | Inr results \<Rightarrow>
                  (case dict_update (coll st1) results of
                     (r, d) \<Rightarrow> (r, st1\<lparr>coll := d\<rparr>)))
           else if status_code res = 206 then
             (case results_of res of
                Inl e \<Rightarrow> (Inl e, st1)
              | Inr results \<Rightarrow>
                  (case dict_update (coll st1) results of
                     (Inl e, d) \<Rightarrow> (Inl e, st1\<lparr>coll := d\<rparr>)
                   | (Inr u, d) \<Rightarrow>
                       (case get_next_interval_start d of
                          Inl e \<Rightarrow> (Inl e, st1\<lparr>coll := d, clock := clock st1 + 1000\<rparr>)
                        | Inr next_start \<Rightarrow>
                            get_freq_by_interval depth http
                              (st1\<lparr>coll := d, clock := clock st1 + 1000\<rparr>)
                              seq_id next_start stop)))
           else if status_code res \<ge> 400 then
             (case res_json res of
                Inl e \<Rightarrow> (Inl e, st1)
              | Inr data \<Rightarrow> (Inl raise_str, st1))
           else (Inl raise_str, st1)))"
  by (cases "limits (freq_limit st) (clock st)") simp

lemma step_partial_any:
  assumes "fst (limits (freq_limit st) (clock st))"
    "http (world st) (api_url seq_id start stop) = (Inr res, w)" "status_code res = 206"
    "results_of res = Inr page" "dict_update (coll st) page = (Inr (), d)"
  shows "get_freq_by_interval (Suc depth) http st seq_id start stop =
         (case get_next_interval_start d of
            Inl e \<Rightarrow> (Inl e, (answered st (api_url seq_id start stop) res w)
                              \<lparr>coll := d, clock := clock st + elapsed res + 1000\<rparr>)
          | Inr n \<Rightarrow> get_freq_by_interval depth http
              ((answered st (api_url seq_id start stop) res w)
                 \<lparr>coll := d, clock := clock st + elapsed res + 1000\<rparr>)
              seq_id n stop)"
  using assms
  by (simp add: step_admitted requests_get_Inr answered_fields del: get_freq_by_interval.simps
      split: sum.splits)

lemma step_error_status:
  assumes "fst (limits (freq_limit st) (clock st))"
    "http (world st) (api_url seq_id start stop) = (Inr res, w)"
    "status_code res \<noteq> 200" "status_code res \<noteq> 206"
  shows "\<exists>e. \<forall>depth. get_freq_by_interval (Suc depth) http st seq_id start stop =
         (Inl e, answered st (api_url seq_id start stop) res w)"
proof (cases "status_code res \<ge> 400")
  case True
  show ?thesis
  proof (cases "res_json res")
    case (Inl e)
    with True assms show ?thesis by (simp add: step_admitted requests_get_Inr del: get_freq_by_interval.simps)
  next
    case (Inr data)
    with True assms show ?thesis by (simp add: step_admitted requests_get_Inr del: get_freq_by_interval.simps)
  qed
next
  case False
  with assms show ?thesis by (simp add: step_admitted requests_get_Inr del: get_freq_by_interval.simps)
qed

lemma get_freq_by_interval_step:
  assumes "get_freq_by_interval (Suc depth) http st seq_id start stop = (r, st')"
  shows "(\<not> fst (limits (freq_limit st) (clock st)) \<and>
          sent st' = sent st \<and> sent_at st' = sent_at st \<and> coll st' = coll st \<and>
          clock st' = clock st) \<or>
         (fst (limits (freq_limit st) (clock st)) \<and>
          (\<exists>x st1. requests_get http (st\<lparr>freq_limit := snd (limits (freq_limit st) (clock st))\<rparr>)
                      (api_url seq_id start stop) = (x, st1) \<and>
             ((sent st' = sent st1 \<and> sent_at st' = sent_at st1 \<and> clock st1 \<le> clock st' \<and>
               fst ` set (coll st1) \<subseteq> fst ` set (coll st')) \<or>
              (\<exists>d n. fst ` set (coll st1) \<subseteq> fst ` set d \<and>
                 get_freq_by_interval depth http (st1\<lparr>coll := d, clock := clock st1 + 1000\<rparr>)
                   seq_id n stop = (r, st')))))"
proof (cases "fst (limits (freq_limit st) (clock st))")
  case False
  with assms show ?thesis by (auto simp: step_refused simp del: get_freq_by_interval.simps)
next
  case True
  obtain x st1 where rg:
    "requests_get http (st\<lparr>freq_limit := snd (limits (freq_limit st) (clock st))\<rparr>)
       (api_url seq_id start stop) = (x, st1)"
    by (cases "requests_get http (st\<lparr>freq_limit := snd (limits (freq_limit st) (clock st))\<rparr>)
       (api_url seq_id start stop)")
  let ?now = "sent st' = sent st1 \<and> sent_at st' = sent_at st1 \<and> clock st1 \<le> clock st' \<and>
               fst ` set (coll st1) \<subseteq> fst ` set (coll st')"
  let ?later = "\<exists>d n. fst ` set (coll st1) \<subseteq> fst ` set d \<and>
                 get_freq_by_interval depth http (st1\<lparr>coll := d, clock := clock st1 + 1000\<rparr>)
                   seq_id n stop = (r, st')"
  note run = assms [unfolded step_admitted [OF True] rg, simplified]
  have "?now \<or> ?later"
  proof (cases x)
    case (Inl e)
    with run show ?thesis by simp
  next
    case (Inr res)
    show ?thesis
    proof (cases "results_of res")
      case (Inl e)
      with run Inr show ?thesis by (auto split: if_splits sum.splits)
    next
      case results: (Inr results)
      obtain u d where du: "dict_update (coll st1) results = (u, d)"
        by (cases "dict_update (coll st1) results")
      from keys_dict_update [OF du] have k: "fst ` set (coll st1) \<subseteq> fst ` set d" .
      show ?thesis
      proof (cases "status_code res = 206 \<and> (\<exists>n. u = Inr () \<and> get_next_interval_start d = Inr n)")
        case True
        then obtain n where "status_code res = 206" "u = Inr ()" "get_next_interval_start d = Inr n"
          by blast
        with run Inr results du have
          "get_freq_by_interval depth http (st1\<lparr>coll := d, clock := clock st1 + 1000\<rparr>)
             seq_id n stop = (r, st')" by simp
        with k show ?thesis by blast
      next
        case False
        with run Inr results du have "st' = st1 \<or> st' = st1\<lparr>coll := d\<rparr> \<or>
            st' = st1\<lparr>coll := d, clock := clock st1 + 1000\<rparr>"
          by (auto split: if_splits sum.splits)
        then have ?now using k by (elim disjE) simp_all
        then show ?thesis ..
      qed
    qed
  qed
  with True rg show ?thesis by blast
qed

subsection \<open>A whole run\<close>


lemma run_sent:
  "get_freq_by_interval depth http st seq_id start stop = (r, st') \<Longrightarrow>
   \<exists>starts. sent st' = sent st @ map (\<lambda>s. api_url seq_id s stop) starts \<and>
     (if 0 < depth \<and> fst (limits (freq_limit st) (clock st))
      then starts \<noteq> [] \<and> hd starts = start else starts = [])"
proof (induction depth arbitrary: st start)
  case 0
  then show ?case by simp
next
  case (Suc depth)
  let ?url = "\<lambda>s. api_url seq_id s stop"
  from get_freq_by_interval_step [OF Suc.prems]
  show ?case
  proof (elim disjE conjE exE)
    assume "\<not> fst (limits (freq_limit st) (clock st))" "sent st' = sent st"
    then have "sent st' = sent st @ map ?url [] \<and>
        (if 0 < Suc depth \<and> fst (limits (freq_limit st) (clock st))
         then [] \<noteq> [] \<and> hd [] = start else ([] :: int list) = [])" by simp
    then show ?thesis by blast
  next
    fix x st1
    assume adm: "fst (limits (freq_limit st) (clock st))"
      and rg: "requests_get http (st\<lparr>freq_limit := snd (limits (freq_limit st) (clock st))\<rparr>)
                 (api_url seq_id start stop) = (x, st1)"
      and now: "sent st' = sent st1"
    from requests_get_limited(1) [OF rg] now
    have "sent st' = sent st @ map ?url [start]" by simp
    with adm have "sent st' = sent st @ map ?url [start] \<and>
        (if 0 < Suc depth \<and> fst (limits (freq_limit st) (clock st))
         then [start] \<noteq> [] \<and> hd [start] = start else [start] = [])" by simp
    then show ?thesis by blast
  next
    fix x st1 d n
    assume adm: "fst (limits (freq_limit st) (clock st))"
      and rg: "requests_get http (st\<lparr>freq_limit := snd (limits (freq_limit st) (clock st))\<rparr>)
                 (api_url seq_id start stop) = (x, st1)"
      and later: "get_freq_by_interval depth http (st1\<lparr>coll := d, clock := clock st1 + 1000\<rparr>)
                   seq_id n stop = (r, st')"
    from Suc.IH [OF later] obtain starts where
      "sent st' = sent (st1\<lparr>coll := d, clock := clock st1 + 1000\<rparr>) @ map ?url starts" by blast
    with requests_get_limited(1) [OF rg]
    have "sent st' = sent st @ map ?url (start # starts)" by simp
    with adm have "sent st' = sent st @ map ?url (start # starts) \<and>
        (if 0 < Suc depth \<and> fst (limits (freq_limit st) (clock st))
         then start # starts \<noteq> [] \<and> hd (start # starts) = start else start # starts = [])"
      by simp
    then show ?thesis by blast
  qed
qed







lemma py_getitem_in: "py_getitem d k = Inr v \<Longrightarrow> py_in k d = Inr True"
  by (cases d) (force split: option.splits dest!: map_of_SomeD)+

subsection \<open>The frequency service\<close>

text \<open>
  The service reads the position and the length back from the URL that the paginator
  builds, provided the sequence ID holds no colon. When no more variants overlap the
  interval than a page holds, the last cell retrieves them all with a single request: the
  keys of the accumulator are those of the overlapping variants, one entry for each.
\<close>

lemma split_at_not_Nil: "split_at sep s \<noteq> []"
  by (induction s) (auto split: list.splits)

lemma split_at_Cons: "sep \<notin> set a \<Longrightarrow> split_at sep (a @ sep # b) = a # split_at sep b"
  by (induction a) (auto simp: split_at_not_Nil split: list.splits)

lemma str_int_chars: "c \<in> set (str_int i) \<Longrightarrow> c = CHR ''-'' \<or> digit_val c \<noteq> None"
  using digits_of_digits by (auto simp: str_int_def split: if_splits)

lemma str_int_no_colon: "CHR '':'' \<notin> set (str_int i)"
  using str_int_chars [of "CHR '':''" i] by (auto simp: digit_val_def)

lemma str_int_no_slash: "CHR ''/'' \<notin> set (str_int i)"
  using str_int_chars [of "CHR ''/''" i] by (auto simp: digit_val_def)

lemma str_int_no_at: "CHR ''@'' \<notin> set (str_int i)"
  using int_of_str_no_at [OF int_of_str_str_int] .

lemma takeWhile_until: "x \<notin> set a \<Longrightarrow> takeWhile (\<lambda>c. c \<noteq> x) (a @ x # b) = a"
  by (induction a) auto

lemma frequency_service_api_url:
  assumes "CHR '':'' \<notin> set seq_id"
  shows "frequency_service page_size db w (api_url seq_id start stop) =
           (Inr (frequency_records page_size db start (stop - start + 1)), w)"
proof -
  let ?tail = "str_int (stop - start + 1) @ ''/overlapping_frequency_records''"
  have d: "drop (length ''https://api.ncbi.nlm.nih.gov/variation/v0/interval/'') (api_url seq_id start stop) =
      seq_id @ CHR '':'' # str_int start @ CHR '':'' # ?tail"
    unfolding api_url_def by simp
  have "CHR '':'' \<notin> set ?tail" using str_int_no_colon by simp
  then have "split_at CHR '':'' ?tail = [?tail]" by (rule split_at_none)
  then have s: "split_at CHR '':'' (seq_id @ CHR '':'' # str_int start @ CHR '':'' # ?tail) =
      [seq_id, str_int start, ?tail]"
    using assms str_int_no_colon by (simp add: split_at_Cons)
  have t: "takeWhile (\<lambda>c. c \<noteq> CHR ''/'') ?tail = str_int (stop - start + 1)"
    using takeWhile_until [OF str_int_no_slash, of "stop - start + 1" "''overlapping_frequency_records''"]
    by simp
  show ?thesis
    unfolding frequency_service_def d s by (simp only: list.case t int_of_str_str_int prod.case sum.case)
qed


lemma variant_key_inj: "variant_key v = variant_key u \<Longrightarrow> v = u"
proof -
  assume e: "variant_key v = variant_key u"
  have "\<And>x. split_at CHR ''@'' (variant_key x) = [str_int (fst x), str_int (snd x)]"
    using split_at_once [OF str_int_no_at str_int_no_at] by (simp add: variant_key_def)
  with e have "str_int (fst v) = str_int (fst u)" "str_int (snd v) = str_int (snd u)"
    by (metis list.inject)+
  then have "int_of_str (str_int (fst v)) = int_of_str (str_int (fst u))"
    "int_of_str (str_int (snd v)) = int_of_str (str_int (snd u))" by simp_all
  then show "v = u" by (simp add: int_of_str_str_int prod_eq_iff)
qed

lemma single_page_is_complete:
  assumes seq: "CHR '':'' \<notin> set seq_id"
    and few: "length (overlapping db start (stop - start + 1)) \<le> page_size"
    and adm: "fst (limits (freq_limit st) (clock st))"
  shows "\<exists>st'. last_cell (Suc depth) (frequency_service page_size db) st seq_id start stop =
                  (Inr (), st') \<and>
           sent st' = sent st @ [api_url seq_id start stop] \<and>
           fst ` set (coll st') = JStr ` variant_key ` set (overlapping db start (stop - start + 1)) \<and>
           distinct (map fst (coll st')) \<and>
           length (coll st') = card (set (overlapping db start (stop - start + 1)))"
proof -
  let ?found = "overlapping db start (stop - start + 1)"
  let ?res = "frequency_records page_size db start (stop - start + 1)"
  let ?kvs = "map (\<lambda>v. (variant_key v, JNull)) ?found"
  let ?st0 = "st\<lparr>coll := []\<rparr>"
  let ?st1 = "answered ?st0 (api_url seq_id start stop) ?res (world st)"
  let ?st' = "?st1\<lparr>coll := dict_merge [] ?kvs\<rparr>"
  have status: "status_code ?res = 200" using few by (simp add: frequency_records_def Let_def)
  have results: "results_of ?res = Inr (JObj ?kvs)"
    using few by (simp add: frequency_records_def Let_def results_of_def res_json_def)
  have adm0: "fst (limits (freq_limit ?st0) (clock ?st0))" using adm by simp
  have "frequency_service page_size db (world ?st0) (api_url seq_id start stop) = (Inr ?res, world st)"
    using frequency_service_api_url [OF seq] by simp
  from requests_get_Inr [where http = "frequency_service page_size db" and st = "?st0", OF this]
  have run: "last_cell (Suc depth) (frequency_service page_size db) st seq_id start stop = (Inr (), ?st')"
    unfolding last_cell_def step_admitted [OF adm0]
    by (simp add: status results answered_fields)
  have keys: "fst ` set (coll ?st') = JStr ` variant_key ` set ?found"
    by (simp add: keys_dict_merge image_image)
  have dist: "distinct (map fst (coll ?st'))"
    using distinct_dict_merge [of "[]" ?kvs] by simp
  have "length (coll ?st') = card (fst ` set (coll ?st'))"
    using distinct_card [OF dist] by simp
  also have "\<dots> = card (set ?found)"
    unfolding keys image_image
    by (rule card_image) (auto simp: inj_on_def dest: variant_key_inj)
  finally have len: "length (coll ?st') = card (set ?found)" .
  have "sent ?st' = sent st @ [api_url seq_id start stop]" by (simp add: answered_fields)
  with run keys dist len show ?thesis by blast
qed

section \<open>The claims\<close>

subsection \<open>C1: the next start is one past the highest stop in the whole accumulator\<close>

text \<open>
  C1. For every non-empty accumulated mapping whose keys have the form
  \<open><length>@<start>\<close>, \<open>get_next_interval_start\<close> returns the maximum over all keys of
  start + length, plus 1. The paginator applies it to the whole accumulator \<^verbatim>\<open>coll\<close> as
  it stands after the partial page has been merged, not to the page alone: the request
  that follows the partial page goes to the interval that starts at that maximum plus 1.
  For the keys \<open>10@0\<close> and \<open>5@20\<close> the result is 26.
\<close>

theorem next_start_is_max_over_accumulator:
  fixes len pos :: "json \<Rightarrow> int"
  assumes ne: "result \<noteq> []"
    and keys: "\<forall>k \<in> set (map fst result). \<exists>ls ss. k = JStr (ls @ ''@'' @ ss) \<and>
                 int_of_str ls = Inr (len k) \<and> int_of_str ss = Inr (pos k)"
  shows "get_next_interval_start result =
           Inr (Max ((\<lambda>k. len k + pos k) ` set (map fst result)) + 1) \<and>
         (fst (limits (freq_limit st) (clock st)) \<and> last_reset (freq_limit st) \<le> clock st \<and>
          http (world st) (api_url seq_id start stop) = (Inr res, w) \<and>
          status_code res = 206 \<and> results_of res = Inr page \<and>
          dict_update (coll st) page = (Inr (), result) \<longrightarrow>
          (\<exists>starts.
             sent (snd (get_freq_by_interval (Suc (Suc depth)) http st seq_id start stop)) =
             sent st @ api_url seq_id start stop #
               api_url seq_id (Max ((\<lambda>k. len k + pos k) ` set (map fst result)) + 1) stop #
               map (\<lambda>s. api_url seq_id s stop) starts))"
proof (intro conjI impI)
  let ?next = "Max ((\<lambda>k. len k + pos k) ` set (map fst result)) + 1"
  show f: "get_next_interval_start result = Inr ?next"
    using ne keys by (rule next_start_formula)
  assume h: "fst (limits (freq_limit st) (clock st)) \<and> last_reset (freq_limit st) \<le> clock st \<and>
          http (world st) (api_url seq_id start stop) = (Inr res, w) \<and>
          status_code res = 206 \<and> results_of res = Inr page \<and>
          dict_update (coll st) page = (Inr (), result)"
  let ?st = "(answered st (api_url seq_id start stop) res w)
               \<lparr>coll := result, clock := clock st + elapsed res + 1000\<rparr>"
  let ?run = "get_freq_by_interval (Suc depth) http ?st seq_id ?next stop"
  have step: "get_freq_by_interval (Suc (Suc depth)) http st seq_id start stop = ?run"
    using step_partial_any [where http = http and st = st and d = result and depth = "Suc depth"
        and seq_id = seq_id and start = start and stop = stop and res = res and w = w
        and page = page] h f
    by simp
  have adm: "fst (limits (freq_limit ?st) (clock ?st))"
    using limits_again [of "freq_limit st" "clock st" "elapsed res"] h
    by (simp add: answered_fields)
  have "?run = (fst ?run, snd ?run)" by simp
  from run_sent [OF this] adm obtain starts where
    s: "sent (snd ?run) = sent ?st @ map (\<lambda>s. api_url seq_id s stop) starts"
    and n: "starts \<noteq> []" "hd starts = ?next"
    by auto
  from n obtain rest where "starts = ?next # rest" by (cases starts) auto
  moreover have "sent ?st = sent st @ [api_url seq_id start stop]"
    by (simp add: answered_fields)
  ultimately have "sent (snd ?run) =
      sent st @ api_url seq_id start stop # api_url seq_id ?next stop #
        map (\<lambda>s. api_url seq_id s stop) rest"
    using s by simp
  then show "\<exists>starts.
             sent (snd (get_freq_by_interval (Suc (Suc depth)) http st seq_id start stop)) =
             sent st @ api_url seq_id start stop # api_url seq_id ?next stop #
               map (\<lambda>s. api_url seq_id s stop) starts"
    unfolding step by blast
qed

text \<open>
  The keys \<open>10@0\<close> and \<open>5@20\<close> give 26; and with \<open>5@20\<close> accumulated earlier, a partial
  page that holds only \<open>5@3\<close> is followed by a request at 26, not at 9.
\<close>

theorem next_start_is_max_over_accumulator_witness:
  "get_next_interval_start [(JStr ''10@0'', JNull), (JStr ''5@20'', JNull)] = Inr 26 \<and>
   (\<exists>starts.
      sent (snd (get_freq_by_interval 2 scripted
        ((fresh [Inr \<lparr>status_code = 206,
                       body = Some (JObj [(''results'', JObj [(''5@3'', JNull)])]),
                       elapsed = 120\<rparr>,
                 Inr \<lparr>status_code = 200, body = Some (JObj [(''results'', JObj [])]),
                       elapsed = 90\<rparr>])
           \<lparr>coll := [(JStr ''5@20'', JNull)]\<rparr>) ''NC_1'' 0 30)) =
      api_url ''NC_1'' 0 30 # api_url ''NC_1'' 26 30 # map (\<lambda>s. api_url ''NC_1'' s 30) starts)"
proof -
  let ?len = "\<lambda>k. if k = JStr ''10@0'' then 10 else (5::int)"
  let ?pos = "\<lambda>k. if k = JStr ''10@0'' then 0 else if k = JStr ''5@20'' then 20 else (3::int)"
  have k1: "\<exists>ls ss. ''10@0'' = ls @ ''@'' @ ss \<and> int_of_str ls = Inr 10 \<and> int_of_str ss = Inr 0"
    by (rule exI [of _ "''10''"], rule exI [of _ "''0''"]) (simp add: int_of_str_examples)
  have k2: "\<exists>ls ss. ''5@20'' = ls @ ''@'' @ ss \<and> int_of_str ls = Inr 5 \<and> int_of_str ss = Inr 20"
    by (rule exI [of _ "''5''"], rule exI [of _ "''20''"]) (simp add: int_of_str_examples)
  have three: "int_of_str ''3'' = Inr 3" by code_simp
  have k3: "\<exists>ls ss. ''5@3'' = ls @ ''@'' @ ss \<and> int_of_str ls = Inr 5 \<and> int_of_str ss = Inr 3"
    by (rule exI [of _ "''5''"], rule exI [of _ "''3''"]) (simp add: int_of_str_examples three)
  let ?a = "[(JStr ''10@0'', JNull), (JStr ''5@20'', JNull)]"
  have ka: "\<forall>k \<in> set (map fst ?a). \<exists>ls ss. k = JStr (ls @ ''@'' @ ss) \<and>
                 int_of_str ls = Inr (?len k) \<and> int_of_str ss = Inr (?pos k)"
    using k1 k2 by simp
  have na: "?a \<noteq> []" by simp
  have "get_next_interval_start ?a =
      Inr (Max ((\<lambda>k. ?len k + ?pos k) ` set (map fst ?a)) + 1)"
    by (rule next_start_is_max_over_accumulator [OF na ka, THEN conjunct1])
  then have first: "get_next_interval_start ?a = Inr 26" by simp
  let ?b = "[(JStr ''5@20'', JNull), (JStr ''5@3'', JNull)]"
  let ?res = "\<lparr>status_code = 206, body = Some (JObj [(''results'', JObj [(''5@3'', JNull)])]),
              elapsed = 120\<rparr>"
  let ?rest = "[Inr \<lparr>status_code = 200, body = Some (JObj [(''results'', JObj [])]),
                     elapsed = 90\<rparr> :: error + response]"
  let ?st = "(fresh (Inr ?res # ?rest))\<lparr>coll := [(JStr ''5@20'', JNull)]\<rparr>"
  have kb: "\<forall>k \<in> set (map fst ?b). \<exists>ls ss. k = JStr (ls @ ''@'' @ ss) \<and>
                 int_of_str ls = Inr (?len k) \<and> int_of_str ss = Inr (?pos k)"
    using k2 k3 by simp
  have nb: "?b \<noteq> []" by simp
  have h: "fst (limits (freq_limit ?st) (clock ?st)) \<and> last_reset (freq_limit ?st) \<le> clock ?st \<and>
          scripted (world ?st) (api_url ''NC_1'' 0 30) = (Inr ?res, ?rest) \<and>
          status_code ?res = 206 \<and>
          results_of ?res = Inr (JObj [(''5@3'', JNull)]) \<and>
          dict_update (coll ?st) (JObj [(''5@3'', JNull)]) = (Inr (), ?b)"
    using fresh_admits [of "Inr ?res # ?rest"]
    by (simp add: fresh_fields scripted_def results_of_def res_json_def)
  note inst = next_start_is_max_over_accumulator
          [where result = "?b" and len = "?len" and pos = "?pos" and http = scripted
             and st = "?st" and seq_id = "''NC_1''" and start = 0 and stop = 30
             and res = "?res" and w = "?rest" and page = "JObj [(''5@3'', JNull)]"
             and depth = 0,
           OF nb kb, THEN conjunct2, THEN mp, OF h]
  from inst have second: "\<exists>starts.
      sent (snd (get_freq_by_interval 2 scripted ?st ''NC_1'' 0 30)) =
      api_url ''NC_1'' 0 30 # api_url ''NC_1'' 26 30 # map (\<lambda>s. api_url ''NC_1'' s 30) starts"
    by (simp add: numeral_2_eq_2 fresh_fields)
  from first second show ?thesis by (rule conjI)
qed

subsection \<open>C2: the request carries a position and a length\<close>

text \<open>
  C2. Every request of the paginator, the first one and those of the recursive calls,
  names the interval by its position \<open>s\<close> and the length \<open>stop - s + 1\<close>, written in
  decimal (which \<open>int\<close> reads back as these numbers). A call that the interpreter and
  the decorator let through sends at least one request, and its first request is at
  \<open>start\<close>; a call that they refuse sends none.
\<close>

theorem request_encodes_position_and_length:
  assumes "get_freq_by_interval depth http st seq_id start stop = (r, st')"
  shows "\<exists>starts. sent st' = sent st @
           map (\<lambda>s. ''https://api.ncbi.nlm.nih.gov/variation/v0/interval/'' @
                     seq_id @ '':'' @ str_int s @ '':'' @ str_int (stop - s + 1) @
                     ''/overlapping_frequency_records'') starts \<and>
           (\<forall>s \<in> set starts.
              int_of_str (str_int s) = Inr s \<and>
              int_of_str (str_int (stop - s + 1)) = Inr (stop - s + 1)) \<and>
           (if 0 < depth \<and> fst (limits (freq_limit st) (clock st))
            then starts \<noteq> [] \<and> hd starts = start else starts = [])"
proof -
  from run_sent [OF assms] obtain starts where
    "sent st' = sent st @ map (\<lambda>s. api_url seq_id s stop) starts"
    and i: "if 0 < depth \<and> fst (limits (freq_limit st) (clock st))
      then starts \<noteq> [] \<and> hd starts = start else starts = []" by blast
  then have "sent st' = sent st @
           map (\<lambda>s. ''https://api.ncbi.nlm.nih.gov/variation/v0/interval/'' @
                     seq_id @ '':'' @ str_int s @ '':'' @ str_int (stop - s + 1) @
                     ''/overlapping_frequency_records'') starts"
    unfolding api_url_def by simp
  with i show ?thesis using int_of_str_str_int by blast
qed

theorem request_encodes_position_and_length_witness:
  "sent (snd (get_freq_by_interval 1 scripted
     (fresh [Inr \<lparr>status_code = 200, body = Some (JObj [(''results'', JObj [])]),
                   elapsed = 120\<rparr>]) ''NC_000017.11'' 100 150)) =
     [''https://api.ncbi.nlm.nih.gov/variation/v0/interval/NC_000017.11:100:51/overlapping_frequency_records''] \<and>
   (\<exists>starts.
      [''https://api.ncbi.nlm.nih.gov/variation/v0/interval/NC_000017.11:100:51/overlapping_frequency_records''] =
      map (\<lambda>s. ''https://api.ncbi.nlm.nih.gov/variation/v0/interval/'' @
                ''NC_000017.11'' @ '':'' @ str_int s @ '':'' @ str_int (150 - s + 1) @
                ''/overlapping_frequency_records'') starts \<and>
      starts \<noteq> [] \<and> hd starts = 100 \<and>
      int_of_str (str_int (150 - hd starts + 1)) = Inr (150 - hd starts + 1))"
proof -
  let ?st = "fresh [Inr \<lparr>status_code = 200, body = Some (JObj [(''results'', JObj [])]),
                         elapsed = 120\<rparr> :: error + response]"
  let ?run = "get_freq_by_interval 1 scripted ?st ''NC_000017.11'' 100 150"
  let ?url = "\<lambda>s. ''https://api.ncbi.nlm.nih.gov/variation/v0/interval/'' @
                ''NC_000017.11'' @ '':'' @ str_int s @ '':'' @ str_int (150 - s + 1) @
                ''/overlapping_frequency_records''"
  have ev: "sent (snd ?run) =
     [''https://api.ncbi.nlm.nih.gov/variation/v0/interval/NC_000017.11:100:51/overlapping_frequency_records'']"
    by code_simp
  have run: "?run = (fst ?run, snd ?run)" by simp
  from request_encodes_position_and_length [OF run] obtain starts where
    si: "sent (snd ?run) = sent ?st @ map ?url starts \<and>
         (\<forall>s \<in> set starts.
              int_of_str (str_int s) = Inr s \<and>
              int_of_str (str_int (150 - s + 1)) = Inr (150 - s + 1)) \<and>
         (if 0 < (1::nat) \<and> fst (limits (freq_limit ?st) (clock ?st))
          then starts \<noteq> [] \<and> hd starts = 100 else starts = [])" ..
  from si fresh_admits(1) [of "world ?st"] have n: "starts \<noteq> []" "hd starts = 100"
    by (simp_all add: fresh_fields)
  from n(1) have "hd starts \<in> set starts" by (rule hd_in_set)
  with si have i: "int_of_str (str_int (150 - hd starts + 1)) = Inr (150 - hd starts + 1)"
    by blast
  from si have "sent (snd ?run) = map ?url starts" by (simp add: fresh_fields)
  with ev have m: "[''https://api.ncbi.nlm.nih.gov/variation/v0/interval/NC_000017.11:100:51/overlapping_frequency_records''] =
      map ?url starts" by simp
  have "\<exists>starts.
      [''https://api.ncbi.nlm.nih.gov/variation/v0/interval/NC_000017.11:100:51/overlapping_frequency_records''] =
      map ?url starts \<and> starts \<noteq> [] \<and> hd starts = 100 \<and>
      int_of_str (str_int (150 - hd starts + 1)) = Inr (150 - hd starts + 1)"
    using m n i by (intro exI [of _ starts] conjI)
  with ev show ?thesis by (rule conjI)
qed

subsection \<open>C3: the locator orders the interval\<close>

text \<open>
  C3. When the summary response for the gene holds genomic info (status 200, a result
  entry for the gene whose first genomic-info record has \<open>chraccver\<close>, \<open>chrstart\<close>
  and \<open>chrstop\<close>, the latter two integers), a call of \<open>get_gene_loc\<close> that the decorator
  lets through returns the accession with start \<open>\<le>\<close> stop, the two reported positions
  being swapped exactly when the reported start is greater than the reported stop.
\<close>

theorem locator_orders_interval:
  assumes "fst (limits (gene_limit st) (clock st))"
    and "http (world st) (esum_url gene_id) = (Inr res, w)"
    and "status_code res = 200" and "res_json res = Inr data"
    and "py_getitem data ''result'' = Inr result"
    and "py_getitem result gene_id = Inr gene"
    and "py_getitem gene ''genomicinfo'' = Inr infos"
    and "py_getitem0 infos = Inr loc"
    and "py_getitem loc ''chraccver'' = Inr acc"
    and "py_getitem loc ''chrstart'' = Inr x" and "py_int x = Inr a"
    and "py_getitem loc ''chrstop'' = Inr y" and "py_int y = Inr b"
  shows "\<exists>start stop. fst (get_gene_loc http st gene_id) = Inr (acc, start, stop) \<and>
           start \<le> stop \<and> (start, stop) = (if a > b then (b, a) else (a, b))"
proof -
  have "has_genomicinfo data gene_id = Inr True"
    using assms(5-7) by (simp add: has_genomicinfo_def py_getitem_in)
  moreover have "first_genomicinfo data gene_id = Inr loc"
    using assms(5-8) by (simp add: first_genomicinfo_def)
  moreover have "get_gene_loc http st gene_id =
      get_gene_loc_wrapped http (st\<lparr>gene_limit := snd (limits (gene_limit st) (clock st))\<rparr>) gene_id"
    using assms(1) by (cases "limits (gene_limit st) (clock st)") (simp add: get_gene_loc_def)
  ultimately have "fst (get_gene_loc http st gene_id) =
      (if a > b then Inr (acc, b, a) else Inr (acc, a, b))"
    using assms(2-4) assms(9-13) by (simp add: get_gene_loc_wrapped_def requests_get_def)
  then show ?thesis by (cases "a > b") auto
qed

text \<open>TP53 lies on the reverse strand: the reported positions come back swapped.\<close>

theorem locator_orders_interval_witness:
  "fst (get_gene_loc scripted
         (fresh [Inr \<lparr>status_code = 200,
                        body = Some (JObj [(''result'', JObj [(''uids'', JArr [JStr ''7157'']),
                          (''7157'', JObj [(''name'', JStr ''TP53''),
                             (''genomicinfo'', JArr [JObj [(''chrloc'', JStr ''17''),
                                (''chraccver'', JStr ''NC_000017.11''),
                                (''chrstart'', JInt 7687489), (''chrstop'', JInt 7668420)]])])])]),
                        elapsed = 150\<rparr>]) ''7157'') =
     Inr (JStr ''NC_000017.11'', 7668420, 7687489) \<and>
   (7668420 :: int) \<le> 7687489"
proof -
  let ?loc = "JObj [(''chrloc'', JStr ''17''), (''chraccver'', JStr ''NC_000017.11''),
                    (''chrstart'', JInt 7687489), (''chrstop'', JInt 7668420)]"
  let ?gene = "JObj [(''name'', JStr ''TP53''), (''genomicinfo'', JArr [?loc])]"
  let ?result = "JObj [(''uids'', JArr [JStr ''7157'']), (''7157'', ?gene)]"
  let ?data = "JObj [(''result'', ?result)]"
  let ?res = "\<lparr>status_code = 200, body = Some ?data, elapsed = 150\<rparr>"
  let ?st = "fresh [Inr ?res :: error + response]"
  have h0: "fst (limits (gene_limit ?st) (clock ?st))" by (rule fresh_admits)
  have h1: "scripted (world ?st) (esum_url ''7157'') = (Inr ?res, [])"
    by (simp add: scripted_def fresh_fields)
  have h2: "status_code ?res = 200" by simp
  have h3: "res_json ?res = Inr ?data" by (simp add: res_json_def)
  have h4: "py_getitem ?data ''result'' = Inr ?result" by simp
  have h5: "py_getitem ?result ''7157'' = Inr ?gene" by simp
  have h6: "py_getitem ?gene ''genomicinfo'' = Inr (JArr [?loc])" by simp
  have h7: "py_getitem0 (JArr [?loc]) = Inr ?loc" by simp
  have h8: "py_getitem ?loc ''chraccver'' = Inr (JStr ''NC_000017.11'')" by simp
  have h9: "py_getitem ?loc ''chrstart'' = Inr (JInt 7687489)" by simp
  have h10: "py_int (JInt 7687489) = Inr 7687489" by simp
  have h11: "py_getitem ?loc ''chrstop'' = Inr (JInt 7668420)" by simp
  have h12: "py_int (JInt 7668420) = Inr 7668420" by simp
  from locator_orders_interval [where http = scripted and st = "?st",
      OF h0 h1 h2 h3 h4 h5 h6 h7 h8 h9 h10 h11 h12]
  obtain start stop where r: "fst (get_gene_loc scripted ?st ''7157'') =
        Inr (JStr ''NC_000017.11'', start, stop) \<and> start \<le> stop \<and>
      (start, stop) = (if (7687489::int) > 7668420 then (7668420, 7687489) else (7687489, 7668420))"
    by (elim exE)
  then have "start = 7668420" "stop = 7687489" by simp_all
  with r show ?thesis by (simp del: list.simps)
qed

subsection \<open>C4: a response without genomic info\<close>

text \<open>
  C4. The claim is that a successful summary response without a result entry for the gene,
  or without a genomic-info record in it, makes the locator fail with a lookup error.
  The notebook's check does reach its \<^verbatim>\<open>raise("Genomic information is not avaible for
  this gene")\<close>, but raising a string is itself a \<open>TypeError\<close>: that is what the caller
  gets when \<open>genomicinfo\<close> or the gene's entry is missing. An empty \<open>genomicinfo\<close> array
  passes the check and fails at the subscript \<open>[0]\<close> with \<open>IndexError\<close>.
\<close>

theorem missing_genomicinfo_raises_TypeError:
  "fst (get_gene_loc scripted
         (fresh [Inr \<lparr>status_code = 200,
                       body = Some (JObj [(''result'', JObj [(''7157'', JObj [(''uid'', JStr ''7157'')])])]),
                       elapsed = 120\<rparr>]) ''7157'') = Inl TypeError \<and>
   fst (get_gene_loc scripted
         (fresh [Inr \<lparr>status_code = 200, body = Some (JObj [(''result'', JObj [])]),
                       elapsed = 120\<rparr>]) ''7157'') = Inl TypeError \<and>
   fst (get_gene_loc scripted
         (fresh [Inr \<lparr>status_code = 200,
                       body = Some (JObj [(''result'', JObj [(''7157'', JObj [(''genomicinfo'', JArr [])])])]),
                       elapsed = 120\<rparr>]) ''7157'') = Inl IndexError"
  by code_simp

subsection \<open>C5: error statuses\<close>

text \<open>
  C5, as amended. A response whose status is 400 or more, and a response whose status is
  neither 200 nor 206, make the call raise at once: nothing is merged and no further
  request is sent (none at all when the decorator refuses the call). They are not the
  only failures of the paginator (see below).
\<close>

theorem error_status_raises:
  assumes "http (world st) (api_url seq_id start stop) = (Inr res, w)"
    and "status_code res \<ge> 400 \<or> (status_code res \<noteq> 200 \<and> status_code res \<noteq> 206)"
  shows "\<exists>e st'. (\<forall>depth. get_freq_by_interval (Suc depth) http st seq_id start stop =
                         (Inl e, st')) \<and>
           coll st' = coll st \<and>
           st' = (if fst (limits (freq_limit st) (clock st))
                  then answered st (api_url seq_id start stop) res w
                  else st\<lparr>freq_limit := snd (limits (freq_limit st) (clock st))\<rparr>)"
proof (cases "fst (limits (freq_limit st) (clock st))")
  case True
  from assms(2) have "status_code res \<noteq> 200" "status_code res \<noteq> 206" by auto
  from step_error_status [where http = http and st = st, OF True assms(1) this] obtain e where
    "\<forall>depth. get_freq_by_interval (Suc depth) http st seq_id start stop =
         (Inl e, answered st (api_url seq_id start stop) res w)" ..
  with True show ?thesis by (auto simp: answered_fields)
next
  case False
  then show ?thesis using step_refused [OF False] by auto
qed

theorem error_status_raises_witness:
  "(\<exists>e. fst (get_freq_by_interval 1 scripted
        ((fresh [Inr \<lparr>status_code = 500, body = None, elapsed = 70\<rparr>])
           \<lparr>coll := [(JStr ''1@5'', JNull)]\<rparr>) ''NC_1'' 0 9) = Inl e) \<and>
   coll (snd (get_freq_by_interval 1 scripted
        ((fresh [Inr \<lparr>status_code = 500, body = None, elapsed = 70\<rparr>])
           \<lparr>coll := [(JStr ''1@5'', JNull)]\<rparr>) ''NC_1'' 0 9)) = [(JStr ''1@5'', JNull)] \<and>
   sent (snd (get_freq_by_interval 1 scripted
        ((fresh [Inr \<lparr>status_code = 500, body = None, elapsed = 70\<rparr>])
           \<lparr>coll := [(JStr ''1@5'', JNull)]\<rparr>) ''NC_1'' 0 9)) = [api_url ''NC_1'' 0 9] \<and>
   (\<exists>e. fst (get_freq_by_interval 1 scripted
        ((fresh [Inr \<lparr>status_code = 303, body = None, elapsed = 70\<rparr>])
           \<lparr>coll := [(JStr ''1@5'', JNull)]\<rparr>) ''NC_1'' 0 9) = Inl e) \<and>
   coll (snd (get_freq_by_interval 1 scripted
        ((fresh [Inr \<lparr>status_code = 303, body = None, elapsed = 70\<rparr>])
           \<lparr>coll := [(JStr ''1@5'', JNull)]\<rparr>) ''NC_1'' 0 9)) = [(JStr ''1@5'', JNull)]"
proof -
  let ?r500 = "\<lparr>status_code = 500, body = None, elapsed = 70\<rparr>"
  let ?r303 = "\<lparr>status_code = 303, body = None, elapsed = 70\<rparr>"
  let ?st500 = "(fresh [Inr ?r500 :: error + response])\<lparr>coll := [(JStr ''1@5'', JNull)]\<rparr>"
  let ?st303 = "(fresh [Inr ?r303 :: error + response])\<lparr>coll := [(JStr ''1@5'', JNull)]\<rparr>"
  have a: "scripted (world ?st500) (api_url ''NC_1'' 0 9) = (Inr ?r500, [])"
    by (simp add: scripted_def fresh_fields)
  have a': "status_code ?r500 \<ge> 400 \<or> (status_code ?r500 \<noteq> 200 \<and> status_code ?r500 \<noteq> 206)"
    by simp
  have b: "scripted (world ?st303) (api_url ''NC_1'' 0 9) = (Inr ?r303, [])"
    by (simp add: scripted_def fresh_fields)
  have b': "status_code ?r303 \<ge> 400 \<or> (status_code ?r303 \<noteq> 200 \<and> status_code ?r303 \<noteq> 206)"
    by simp
  have adm: "fst (limits (freq_limit ?st500) (clock ?st500))"
    "fst (limits (freq_limit ?st303) (clock ?st303))"
    using fresh_admits(1) [of "[Inr ?r500 :: error + response]"]
      fresh_admits(1) [of "[Inr ?r303 :: error + response]"] by simp_all
  from error_status_raises [where http = scripted and st = "?st500", OF a a']
  obtain e1 st1 where e1: "(\<forall>depth. get_freq_by_interval (Suc depth) scripted ?st500 ''NC_1'' 0 9 =
        (Inl e1, st1)) \<and> coll st1 = coll ?st500 \<and>
      st1 = (if fst (limits (freq_limit ?st500) (clock ?st500))
             then answered ?st500 (api_url ''NC_1'' 0 9) ?r500 []
             else ?st500\<lparr>freq_limit := snd (limits (freq_limit ?st500) (clock ?st500))\<rparr>)"
    by (elim exE)
  then have r1: "get_freq_by_interval 1 scripted ?st500 ''NC_1'' 0 9 = (Inl e1, st1)"
    by (simp del: get_freq_by_interval.simps)
  from e1 [THEN conjunct2, THEN conjunct1] have c1: "coll st1 = [(JStr ''1@5'', JNull)]" by simp
  from e1 adm(1) have s1: "st1 = answered ?st500 (api_url ''NC_1'' 0 9) ?r500 []"
    by (simp del: get_freq_by_interval.simps)
  from error_status_raises [where http = scripted and st = "?st303", OF b b']
  obtain e2 st2 where e2: "(\<forall>depth. get_freq_by_interval (Suc depth) scripted ?st303 ''NC_1'' 0 9 =
        (Inl e2, st2)) \<and> coll st2 = coll ?st303 \<and>
      st2 = (if fst (limits (freq_limit ?st303) (clock ?st303))
             then answered ?st303 (api_url ''NC_1'' 0 9) ?r303 []
             else ?st303\<lparr>freq_limit := snd (limits (freq_limit ?st303) (clock ?st303))\<rparr>)"
    by (elim exE)
  then have r2: "get_freq_by_interval 1 scripted ?st303 ''NC_1'' 0 9 = (Inl e2, st2)"
    by (simp del: get_freq_by_interval.simps)
  from e2 [THEN conjunct2, THEN conjunct1] have c2: "coll st2 = [(JStr ''1@5'', JNull)]" by simp
  have "\<exists>e. fst (get_freq_by_interval 1 scripted ?st500 ''NC_1'' 0 9) = Inl e"
    unfolding r1 by simp
  moreover have "coll (snd (get_freq_by_interval 1 scripted ?st500 ''NC_1'' 0 9)) =
      [(JStr ''1@5'', JNull)]"
    unfolding r1 using c1 by simp
  moreover have "sent (snd (get_freq_by_interval 1 scripted ?st500 ''NC_1'' 0 9)) =
      [api_url ''NC_1'' 0 9]"
    unfolding r1 s1 by (simp add: answered_fields fresh_fields)
  moreover have "\<exists>e. fst (get_freq_by_interval 1 scripted ?st303 ''NC_1'' 0 9) = Inl e"
    unfolding r2 by simp
  moreover have "coll (snd (get_freq_by_interval 1 scripted ?st303 ''NC_1'' 0 9)) =
      [(JStr ''1@5'', JNull)]"
    unfolding r2 using c2 by simp
  ultimately show ?thesis by (intro conjI)
qed

text \<open>
  The claim as worded, that these two are the only failure modes, does not hold: a partial
  page that leaves the accumulator empty fails in \<open>get_next_interval_start\<close>, and a
  complete response without a \<open>results\<close> member fails at the subscript.
\<close>

theorem other_failure_counterexample:
  "fst (get_freq_by_interval 1 scripted
     (fresh [Inr \<lparr>status_code = 206, body = Some (JObj [(''results'', JObj [])]),
                   elapsed = 120\<rparr>]) ''NC_1'' 0 9) = Inl ValueError \<and>
   fst (get_freq_by_interval 1 scripted
     (fresh [Inr \<lparr>status_code = 200, body = Some (JObj [(''error'', JStr ''busy'')]),
                   elapsed = 120\<rparr>]) ''NC_1'' 0 9) = Inl KeyError"
  by code_simp

subsection \<open>C6: what a failure leaves in the accumulator\<close>




subsection \<open>C7: calls and accumulated records\<close>

text \<open>
  C7. The claim is that the paginator retrieves every overlapping record, in one call
  when a page holds them all and in \<open>\<lceil>count / page size\<rceil>\<close> calls when there are
  more; the notebook says as much (``until we get all the results'', ``get all the
  frequency data of this gene''). The first half holds (\<open>single_page_is_complete\<close>
  above). The second does not: the next request starts one past the highest stop among
  the records received, and a long variant on a page moves that start past variants
  that begin before its stop and were not on the page. Against the service as
  the notebook describes it, with a page size of 2 and five variants overlapping the
  interval from 0 to 20: the first page returns \<open>10@0\<close> and \<open>1@1\<close>, the next request
  starts at 11, and nothing overlaps from there on. Two calls instead of three, two
  records instead of five: \<open>1@5\<close>, \<open>1@6\<close> and \<open>1@7\<close> are never fetched.
\<close>

theorem long_variant_hides_later_records:
  "length (overlapping [(10, 0), (1, 1), (1, 5), (1, 6), (1, 7)] 0 21) = 5 \<and>
   fst (last_cell 10 (frequency_service 2 [(10, 0), (1, 1), (1, 5), (1, 6), (1, 7)])
          (fresh ()) ''NC_1'' 0 20) = Inr () \<and>
   coll (snd (last_cell 10 (frequency_service 2 [(10, 0), (1, 1), (1, 5), (1, 6), (1, 7)])
          (fresh ()) ''NC_1'' 0 20)) = [(JStr ''10@0'', JNull), (JStr ''1@1'', JNull)] \<and>
   sent (snd (last_cell 10 (frequency_service 2 [(10, 0), (1, 1), (1, 5), (1, 6), (1, 7)])
          (fresh ()) ''NC_1'' 0 20)) =
     [''https://api.ncbi.nlm.nih.gov/variation/v0/interval/NC_1:0:21/overlapping_frequency_records'',
      ''https://api.ncbi.nlm.nih.gov/variation/v0/interval/NC_1:11:10/overlapping_frequency_records'']"
  by code_simp

subsection \<open>C8: the spacing of requests\<close>




subsection \<open>C9: the empty accumulator\<close>

text \<open>
  C9. \<open>get_next_interval_start\<close> raises on the empty dict (\<open>max\<close> of an empty list), so
  a partial response (status 206) that adds no record to an empty accumulator makes the
  paginator fail with that \<open>ValueError\<close> instead of sending the next request.
\<close>

theorem empty_accumulator_fails:
  "get_next_interval_start [] = Inl ValueError \<and>
   (http (world st) (api_url seq_id start stop) = (Inr res, w) \<and> status_code res = 206 \<and>
    results_of res = Inr page \<and> coll st = [] \<and> dict_update [] page = (Inr (), []) \<longrightarrow>
    get_freq_by_interval (Suc depth) http st seq_id start stop =
      (if fst (limits (freq_limit st) (clock st))
       then (Inl ValueError,
             (answered st (api_url seq_id start stop) res w)
               \<lparr>coll := [], clock := clock st + elapsed res + 1000\<rparr>)
       else (Inl RateLimitException,
             st\<lparr>freq_limit := snd (limits (freq_limit st) (clock st))\<rparr>)))"
proof (intro conjI impI)
  show e: "get_next_interval_start [] = Inl ValueError"
    by (simp add: get_next_interval_start_def py_max_def)
  assume h: "http (world st) (api_url seq_id start stop) = (Inr res, w) \<and> status_code res = 206 \<and>
    results_of res = Inr page \<and> coll st = [] \<and> dict_update [] page = (Inr (), [])"
  show "get_freq_by_interval (Suc depth) http st seq_id start stop =
      (if fst (limits (freq_limit st) (clock st))
       then (Inl ValueError,
             (answered st (api_url seq_id start stop) res w)
               \<lparr>coll := [], clock := clock st + elapsed res + 1000\<rparr>)
       else (Inl RateLimitException,
             st\<lparr>freq_limit := snd (limits (freq_limit st) (clock st))\<rparr>))"
  proof (cases "fst (limits (freq_limit st) (clock st))")
    case True
    with h e show ?thesis
      using step_partial_any [where http = http and st = st and d = "[]" and depth = depth
        and seq_id = seq_id and start = start and stop = stop and res = res and w = w
        and page = page]
      by simp
  next
    case False
    then show ?thesis using step_refused [OF False] by simp
  qed
qed

theorem empty_accumulator_fails_witness:
  "get_next_interval_start [] = Inl ValueError \<and>
   fst (get_freq_by_interval 3 scripted
     (fresh [Inr \<lparr>status_code = 206, body = Some (JObj [(''results'', JObj [])]), elapsed = 50\<rparr>,
             Inr \<lparr>status_code = 200, body = Some (JObj [(''results'', JObj [])]), elapsed = 50\<rparr>])
     ''NC_1'' 5 9) = Inl ValueError \<and>
   sent (snd (get_freq_by_interval 3 scripted
     (fresh [Inr \<lparr>status_code = 206, body = Some (JObj [(''results'', JObj [])]), elapsed = 50\<rparr>,
             Inr \<lparr>status_code = 200, body = Some (JObj [(''results'', JObj [])]), elapsed = 50\<rparr>])
     ''NC_1'' 5 9)) = [api_url ''NC_1'' 5 9]"
proof -
  let ?res = "\<lparr>status_code = 206, body = Some (JObj [(''results'', JObj [])]), elapsed = 50\<rparr>"
  let ?rest = "[Inr \<lparr>status_code = 200, body = Some (JObj [(''results'', JObj [])]),
                     elapsed = 50\<rparr> :: error + response]"
  let ?st = "fresh (Inr ?res # ?rest)"
  have h: "scripted (world ?st) (api_url ''NC_1'' 5 9) = (Inr ?res, ?rest) \<and>
      status_code ?res = 206 \<and> results_of ?res = Inr (JObj []) \<and> coll ?st = [] \<and>
      dict_update [] (JObj []) = (Inr (), [])"
    by (simp add: scripted_def results_of_def res_json_def fresh_fields)
  note inst = empty_accumulator_fails
      [where http = scripted and st = "?st" and seq_id = "''NC_1''" and start = 5 and stop = 9
         and res = "?res" and w = "?rest" and page = "JObj []" and depth = 2]
  from inst [THEN conjunct2, THEN mp, OF h] fresh_admits(1) [of "Inr ?res # ?rest"]
  have run: "get_freq_by_interval 3 scripted ?st ''NC_1'' 5 9 =
      (Inl ValueError, (answered ?st (api_url ''NC_1'' 5 9) ?res ?rest)
               \<lparr>coll := [], clock := clock ?st + elapsed ?res + 1000\<rparr>)"
    by (simp add: numeral_3_eq_3 del: get_freq_by_interval.simps)
  have "fst (get_freq_by_interval 3 scripted ?st ''NC_1'' 5 9) = Inl ValueError"
    unfolding run by simp
  moreover have "sent (snd (get_freq_by_interval 3 scripted ?st ''NC_1'' 5 9)) =
      [api_url ''NC_1'' 5 9]"
    unfolding run by (simp add: answered_fields fresh_fields)
  ultimately show ?thesis using inst [THEN conjunct1] by simp
qed

subsection \<open>C10: above every stop, and a function of the keys alone\<close>

text \<open>
  C10. For a non-empty dict whose keys all read as \<open><length>@<start>\<close> with integer
  length and start, the value returned by \<open>get_next_interval_start\<close> is strictly greater
  than start + length of every key, and any other dict with the same set of keys (whatever
  its values and their order) gives the same result.
\<close>

theorem next_start_above_every_key:
  fixes len pos :: "json \<Rightarrow> int"
  assumes ne: "result \<noteq> []"
    and keys: "\<forall>k \<in> set (map fst result). \<exists>ls ss. k = JStr (ls @ ''@'' @ ss) \<and>
                 int_of_str ls = Inr (len k) \<and> int_of_str ss = Inr (pos k)"
  shows "(\<exists>r. get_next_interval_start result = Inr r \<and>
              (\<forall>k \<in> set (map fst result). pos k + len k < r)) \<and>
         (set (map fst other) = set (map fst result) \<longrightarrow>
              get_next_interval_start other = get_next_interval_start result)"
proof (intro conjI impI)
  let ?S = "(\<lambda>k. len k + pos k) ` set (map fst result)"
  have fin: "finite ?S" by simp
  have "\<forall>k \<in> set (map fst result). pos k + len k < Max ?S + 1"
  proof
    fix k assume "k \<in> set (map fst result)"
    then have "len k + pos k \<in> ?S" by blast
    then have "len k + pos k \<le> Max ?S" using fin by (rule Max_ge [rotated])
    then show "pos k + len k < Max ?S + 1" by simp
  qed
  then show "\<exists>r. get_next_interval_start result = Inr r \<and>
              (\<forall>k \<in> set (map fst result). pos k + len k < r)"
    using next_start_formula [OF ne keys] by blast
next
  assume eq: "set (map fst other) = set (map fst result)"
  then have "other \<noteq> []" using ne by (cases other) auto
  moreover have "\<forall>k \<in> set (map fst other). \<exists>ls ss. k = JStr (ls @ ''@'' @ ss) \<and>
                 int_of_str ls = Inr (len k) \<and> int_of_str ss = Inr (pos k)"
    using keys eq by simp
  ultimately have "get_next_interval_start other =
      Inr (Max ((\<lambda>k. len k + pos k) ` set (map fst other)) + 1)"
    by (rule next_start_formula)
  then show "get_next_interval_start other = get_next_interval_start result"
    using next_start_formula [OF ne keys] eq by simp
qed

theorem next_start_above_every_key_witness:
  "(\<exists>r. get_next_interval_start [(JStr ''10@0'', JInt 1), (JStr ''5@20'', JInt 2)] = Inr r \<and>
        0 + 10 < r \<and> 20 + 5 < r) \<and>
   get_next_interval_start [(JStr ''5@20'', JNull), (JStr ''10@0'', JNull)] =
   get_next_interval_start [(JStr ''10@0'', JInt 1), (JStr ''5@20'', JInt 2)]"
proof -
  let ?len = "\<lambda>k. if k = JStr ''10@0'' then 10 else (5::int)"
  let ?pos = "\<lambda>k. if k = JStr ''10@0'' then 0 else (20::int)"
  let ?result = "[(JStr ''10@0'', JInt 1), (JStr ''5@20'', JInt 2)]"
  let ?other = "[(JStr ''5@20'', JNull), (JStr ''10@0'', JNull)]"
  have k1: "\<exists>ls ss. ''10@0'' = ls @ ''@'' @ ss \<and> int_of_str ls = Inr 10 \<and> int_of_str ss = Inr 0"
    by (rule exI [of _ "''10''"], rule exI [of _ "''0''"]) (simp add: int_of_str_examples)
  have k2: "\<exists>ls ss. ''5@20'' = ls @ ''@'' @ ss \<and> int_of_str ls = Inr 5 \<and> int_of_str ss = Inr 20"
    by (rule exI [of _ "''5''"], rule exI [of _ "''20''"]) (simp add: int_of_str_examples)
  have keys: "\<forall>k \<in> set (map fst ?result). \<exists>ls ss. k = JStr (ls @ ''@'' @ ss) \<and>
                 int_of_str ls = Inr (?len k) \<and> int_of_str ss = Inr (?pos k)"
    using k1 k2 by simp
  have ne: "?result \<noteq> []" by simp
  have same: "set (map fst ?other) = set (map fst ?result)" by auto
  note inst = next_start_above_every_key [OF ne keys, of ?other]
  from inst have "\<exists>r. get_next_interval_start ?result = Inr r \<and>
      (\<forall>k \<in> set (map fst ?result). ?pos k + ?len k < r)" by (rule conjunct1)
  then have a: "\<exists>r. get_next_interval_start ?result = Inr r \<and> 0 + 10 < r \<and> 20 + 5 < r"
    by simp
  from inst same have b: "get_next_interval_start ?other = get_next_interval_start ?result"
    by blast
  from a b show ?thesis by (rule conjI)
qed

end
